theory Spec2Isabelle
  imports Main "HOL-Library.AList"
begin

section \<open>WordCrack: the candidate generator of realistic_wordlist.py\<close>

text \<open>
  A shallow embedding of \<^verbatim>\<open>src/realistic_wordlist.py\<close>. Python strings are
  \<open>string\<close>; character classes and case mapping are the ASCII ones (a character
  outside ASCII is left alone by \<open>lower\<close> and \<open>upper\<close> and is neither a digit
  nor white space). A Python \<open>set\<close> is a duplicate-free list in insertion order.
  Iterating a set (\<open>list(s)\<close>) visits it in an order Python does not fix, and
  \<open>random.shuffle\<close> rearranges a list: both are \<open>permute k\<close> for a key \<open>k\<close> that
  the functions take as a parameter, and the theorems hold for every key.
\<close>

subsection \<open>Configuration\<close>

definition WATERMARK :: string where
  "WATERMARK = ''--EDU''"

definition MAX_OUTPUT :: int where
  "MAX_OUTPUT = 5000"

definition MIN_LEN_DEFAULT :: int where
  "MIN_LEN_DEFAULT = 6"

definition MAX_LEN_DEFAULT :: int where
  "MAX_LEN_DEFAULT = 16"

definition COMMON_BLACKLIST :: "string list" where
  "COMMON_BLACKLIST =
     [''123456'', ''password'', ''qwerty'', ''admin'', ''letmein'', ''welcome'',
      ''12345678'', ''123456789'', ''1234567890'', ''abc123'', ''password1'']"

subsection \<open>Python values and errors\<close>

text \<open>
  The payload is a \<open>Dict[str, Any]\<close>. A value is \<open>None\<close>, a boolean, an integer, a
  string, or a list of those; a dictionary is an association list read with
  \<open>map_of\<close>, whose items are those of \<open>AList.clearjunk\<close> (one entry per key).
\<close>

datatype pyatom = PNone | PBool bool | PInt int | PStr string

datatype pyval = Atom pyatom | PList "pyatom list"

datatype error = TypeError | ValueError

type_synonym pydict = "(string \<times> pyval) list"

fun truthy_atom :: "pyatom \<Rightarrow> bool" where
  "truthy_atom PNone = False"
| "truthy_atom (PBool b) = b"
| "truthy_atom (PInt i) = (i \<noteq> 0)"
| "truthy_atom (PStr s) = (s \<noteq> [])"

fun truthy :: "pyval \<Rightarrow> bool" where
  "truthy (Atom a) = truthy_atom a"
| "truthy (PList xs) = (xs \<noteq> [])"

text \<open>\<open>data.get(k)\<close>: the value, or \<open>None\<close> when the key is absent.\<close>

definition get :: "pydict \<Rightarrow> string \<Rightarrow> pyval" where
  "get data k = (case map_of data k of None \<Rightarrow> Atom PNone | Some v \<Rightarrow> v)"

definition items :: "pydict \<Rightarrow> (string \<times> pyval) list" where
  "items data = AList.clearjunk data"

text \<open>\<open>for x in v\<close>: a list gives its elements, a string its characters, anything
  else is not iterable.\<close>

fun iterate :: "pyval \<Rightarrow> error + pyatom list" where
  "iterate (PList xs) = Inr xs"
| "iterate (Atom (PStr s)) = Inr (map (\<lambda>c. PStr [c]) s)"
| "iterate (Atom a) = Inl TypeError"

subsection \<open>Characters and strings\<close>

definition ord :: "char \<Rightarrow> nat" where
  "ord c = of_char c"

definition is_space :: "char \<Rightarrow> bool" where
  "is_space c = ((9 \<le> ord c \<and> ord c \<le> 13) \<or> (28 \<le> ord c \<and> ord c \<le> 32))"

definition is_digit :: "char \<Rightarrow> bool" where
  "is_digit c = (48 \<le> ord c \<and> ord c \<le> 57)"

definition to_lower :: "char \<Rightarrow> char" where
  "to_lower c = (if 65 \<le> ord c \<and> ord c \<le> 90 then char_of (ord c + 32) else c)"

definition to_upper :: "char \<Rightarrow> char" where
  "to_upper c = (if 97 \<le> ord c \<and> ord c \<le> 122 then char_of (ord c - 32) else c)"

definition lower :: "string \<Rightarrow> string" where
  "lower s = map to_lower s"

definition upper :: "string \<Rightarrow> string" where
  "upper s = map to_upper s"

text \<open>\<open>str.capitalize\<close>: the first character upper-cased, every other one lower-cased.\<close>

fun capitalize :: "string \<Rightarrow> string" where
  "capitalize [] = []"
| "capitalize (c # cs) = to_upper c # map to_lower cs"

definition strip :: "string \<Rightarrow> string" where
  "strip s = rev (dropWhile is_space (rev (dropWhile is_space s)))"

text \<open>\<open>re.sub(r'\s+', '', s)\<close>: every run of white space is deleted.\<close>

definition re_sub_space :: "string \<Rightarrow> string" where
  "re_sub_space s = filter (\<lambda>c. \<not> is_space c) s"

text \<open>\<open>s[-n:]\<close> and \<open>s[:-n]\<close> for \<open>n > 0\<close>.\<close>

definition last_n :: "nat \<Rightarrow> 'a list \<Rightarrow> 'a list" where
  "last_n n s = drop (length s - n) s"

definition drop_last_n :: "nat \<Rightarrow> 'a list \<Rightarrow> 'a list" where
  "drop_last_n n s = take (length s - n) s"

definition digit_char :: "nat \<Rightarrow> char" where
  "digit_char d = char_of (48 + d)"

function str_nat :: "nat \<Rightarrow> string" where
  "str_nat n = (if n < 10 then [digit_char n] else str_nat (n div 10) @ [digit_char (n mod 10)])"
  by pat_completeness auto
termination
  by (relation "measure id") auto

text \<open>\<open>str(i)\<close> of an integer.\<close>

definition str_int :: "int \<Rightarrow> string" where
  "str_int i = (if i < 0 then CHR ''-'' # str_nat (nat (- i)) else str_nat (nat i))"

text \<open>\<open>str(y)\<close> of a list element.\<close>

fun py_str :: "pyatom \<Rightarrow> string" where
  "py_str PNone = ''None''"
| "py_str (PBool b) = (if b then ''True'' else ''False'')"
| "py_str (PInt i) = str_int i"
| "py_str (PStr s) = s"

text \<open>\<open>int(s)\<close> on a string of decimal digits, the only strings \<open>date_variants\<close>
  is given; the signs, blanks and underscores \<open>int\<close> also reads are not modelled
  and count as a \<open>ValueError\<close>.\<close>

definition digits_value :: "string \<Rightarrow> nat" where
  "digits_value s = foldl (\<lambda>a c. 10 * a + (ord c - 48)) 0 s"

definition py_int :: "string \<Rightarrow> error + int" where
  "py_int s = (if s \<noteq> [] \<and> list_all is_digit s then Inr (int (digits_value s)) else Inl ValueError)"

subsection \<open>Sets as duplicate-free lists, and iteration orders\<close>

definition set_add :: "'a \<Rightarrow> 'a list \<Rightarrow> 'a list" where
  "set_add x xs = (if x \<in> set xs then xs else xs @ [x])"

definition set_update :: "'a list \<Rightarrow> 'a list \<Rightarrow> 'a list" where
  "set_update new xs = fold set_add new xs"

definition remove_nth :: "nat \<Rightarrow> 'a list \<Rightarrow> 'a list" where
  "remove_nth i xs = take i xs @ drop (Suc i) xs"

text \<open>The rearrangement of a list chosen by a key: the key's first number picks the
  element that comes first, the next one picks among the rest, and so on; what is
  left when the key runs out keeps its order.\<close>

fun permute :: "nat list \<Rightarrow> 'a list \<Rightarrow> 'a list" where
  "permute [] xs = xs"
| "permute (k # ks) [] = []"
| "permute (k # ks) (x # xs) =
     (let i = k mod length (x # xs)
      in (x # xs) ! i # permute ks (remove_nth i (x # xs)))"

record orders =
  tokens_order :: "nat list"
  years_order :: "nat list"
  case_order :: "nat list"
  leet_order :: "nat list"
  specials_order :: "nat list"
  numeric_order :: "nat list"
  perms_shuffle :: "nat list"
  final_order :: "nat list"
  final_shuffle :: "nat list"

subsection \<open>Helpers\<close>

definition sanitize_str :: "string \<Rightarrow> string" where
  "sanitize_str s = lower (strip (re_sub_space s))"

text \<open>\<open>sanitize\<close>: a falsy argument gives the empty string; \<open>re.sub\<close> raises a
  \<open>TypeError\<close> on a truthy argument that is not a string.\<close>

definition sanitize :: "pyval \<Rightarrow> error + string" where
  "sanitize s =
     (if truthy s
      then (case s of Atom (PStr t) \<Rightarrow> Inr (sanitize_str t) | _ \<Rightarrow> Inl TypeError)
      else Inr [])"

text \<open>\<open>sanitize(x) for x in v if x\<close>, left to right, stopping at the first error.\<close>

fun sanitize_each :: "pyatom list \<Rightarrow> error + string list" where
  "sanitize_each [] = Inr []"
| "sanitize_each (x # xs) =
     (if truthy_atom x
      then (case sanitize (Atom x) of
              Inl e \<Rightarrow> Inl e
            | Inr t \<Rightarrow> (case sanitize_each xs of Inl e \<Rightarrow> Inl e | Inr ts \<Rightarrow> Inr (t # ts)))
      else sanitize_each xs)"

definition skip_keys :: "string list" where
  "skip_keys =
     [''auth_phrase'', ''count'', ''min_len'', ''max_len'',
      ''include_specials'', ''include_uppercase'',
      ''extra_words'', ''important_years'', ''apps'']"

text \<open>The loop of \<open>extract_tokens\<close> over \<open>data.items()\<close>.\<close>

fun extract_loop :: "(string \<times> pyval) list \<Rightarrow> string list \<Rightarrow> error + string list" where
  "extract_loop [] tokens = Inr tokens"
| "extract_loop ((k, v) # rest) tokens =
     (if k \<in> set skip_keys \<or> \<not> truthy v then extract_loop rest tokens
      else (case v of
              Atom (PStr s) \<Rightarrow>
                (case sanitize v of
                   Inl e \<Rightarrow> Inl e
                 | Inr t \<Rightarrow> extract_loop rest (set_add t tokens))
            | PList xs \<Rightarrow>
                (case sanitize_each xs of
                   Inl e \<Rightarrow> Inl e
                 | Inr ts \<Rightarrow> extract_loop rest (set_update ts tokens))
            | _ \<Rightarrow> extract_loop rest tokens))"

definition add_extra_words :: "pydict \<Rightarrow> string list \<Rightarrow> error + string list" where
  "add_extra_words data tokens =
     (if truthy (get data ''extra_words'')
      then (case iterate (get data ''extra_words'') of
              Inl e \<Rightarrow> Inl e
            | Inr xs \<Rightarrow>
                (case sanitize_each xs of
                   Inl e \<Rightarrow> Inl e
                 | Inr ts \<Rightarrow> Inr (set_update ts tokens)))
      else Inr tokens)"

definition extract_tokens :: "orders \<Rightarrow> pydict \<Rightarrow> error + string list" where
  "extract_tokens env data =
     (case extract_loop (items data) [] of
        Inl e \<Rightarrow> Inl e
      | Inr tokens \<Rightarrow>
          (case add_extra_words data tokens of
             Inl e \<Rightarrow> Inl e
           | Inr tokens' \<Rightarrow> Inr (filter (\<lambda>t. t \<noteq> []) (permute (tokens_order env) tokens'))))"

record dob_parts =
  dd :: string
  mm :: string
  yyyy :: string
  full :: string

text \<open>\<open>re.fullmatch(r'(\d{2})/(\d{2})/(\d{4})', s)\<close>: the pattern is a sequence of
  ten one-character classes, matched position by position.\<close>

definition dob_pattern :: "(char \<Rightarrow> bool) list" where
  "dob_pattern =
     [is_digit, is_digit, (\<lambda>c. c = CHR ''/''), is_digit, is_digit, (\<lambda>c. c = CHR ''/''),
      is_digit, is_digit, is_digit, is_digit]"

definition fullmatch :: "(char \<Rightarrow> bool) list \<Rightarrow> string \<Rightarrow> bool" where
  "fullmatch pat s = list_all2 (\<lambda>p c. p c) pat s"

definition parse_dob :: "pyval \<Rightarrow> error + dob_parts" where
  "parse_dob dob =
     (case (if truthy dob then dob else Atom (PStr [])) of
        Atom (PStr s) \<Rightarrow>
          (if fullmatch dob_pattern s
           then (let d = take 2 s; m = take 2 (drop 3 s); y = drop 6 s
                 in Inr \<lparr>dd = d, mm = m, yyyy = y, full = d @ m @ y\<rparr>)
           else Inl ValueError)
      | _ \<Rightarrow> Inl TypeError)"

text \<open>The \<open>try: ... except: pass\<close> around \<open>parse_dob\<close>, in \<open>get_years\<close> and in
  \<open>generate_realistic\<close>: any error leaves no parts.\<close>

definition try_parse_dob :: "pydict \<Rightarrow> dob_parts option" where
  "try_parse_dob data =
     (if truthy (get data ''dob'')
      then (case parse_dob (get data ''dob'') of Inl e \<Rightarrow> None | Inr p \<Rightarrow> Some p)
      else None)"

definition get_years :: "orders \<Rightarrow> pydict \<Rightarrow> error + string list" where
  "get_years env data =
     (let years = (case try_parse_dob data of None \<Rightarrow> [] | Some p \<Rightarrow> set_add (yyyy p) [])
      in if truthy (get data ''important_years'')
         then (case iterate (get data ''important_years'') of
                 Inl e \<Rightarrow> Inl e
               | Inr ys \<Rightarrow>
                   Inr (permute (years_order env)
                         (set_update (map (\<lambda>y. last_n 4 (strip (py_str y))) (filter truthy_atom ys))
                            years)))
         else Inr (permute (years_order env) years))"

subsection \<open>Transforms\<close>

definition case_variants :: "string \<Rightarrow> bool \<Rightarrow> string list" where
  "case_variants token include_upper =
     lower token #
     (if include_upper
      then upper token # capitalize token #
           (if length token > 1
            then [map (\<lambda>(i, c). if i mod 2 = 0 then to_upper c else to_lower c)
                    (enumerate 0 token)]
            else [])
      else [])"

text \<open>A key of the translation table: \<open>str.maketrans\<close> turns the one-character keys
  of its argument into their ordinals, so the table has integer keys only.\<close>

datatype pykey = KeyOrd nat | KeyStr string

definition leet_map :: "(char \<times> string) list" where
  "leet_map =
     [(CHR ''a'', ''4''), (CHR ''e'', ''3''), (CHR ''i'', ''1''), (CHR ''o'', ''0''),
      (CHR ''s'', ''5''), (CHR ''t'', ''7''), (CHR ''g'', ''9''), (CHR ''b'', ''8'')]"

definition maketrans :: "(char \<times> string) list \<Rightarrow> (pykey \<times> string) list" where
  "maketrans d = map (\<lambda>(c, r). (KeyOrd (ord c), r)) d"

definition translate :: "(pykey \<times> string) list \<Rightarrow> string \<Rightarrow> string" where
  "translate table s =
     concat (map (\<lambda>c. case map_of table (KeyOrd (ord c)) of None \<Rightarrow> [c] | Some r \<Rightarrow> r) s)"

text \<open>\<open>table.get(c, c)\<close> with the one-character string \<open>c\<close> as key.\<close>

definition table_get :: "(pykey \<times> string) list \<Rightarrow> char \<Rightarrow> string" where
  "table_get table c = (case map_of table (KeyStr [c]) of None \<Rightarrow> [c] | Some r \<Rightarrow> r)"

definition leet_variants :: "string \<Rightarrow> string list" where
  "leet_variants token =
     (let table = maketrans leet_map
      in translate table token #
         map (\<lambda>(i, c). take i token @ table_get table c @ drop (i + 1) token)
           (filter (\<lambda>(i, c). to_lower c \<in> set ''aeiostgb'') (enumerate 0 token)))"

definition append_specials :: "string \<Rightarrow> bool \<Rightarrow> string list" where
  "append_specials base include =
     (if \<not> include then []
      else (let specials = [''!'', ''@'', ''#'', ''$'', ''*'']
            in map (\<lambda>s. base @ s) specials @ map (\<lambda>s. s @ base) specials))"

definition insert_special :: "string \<Rightarrow> bool \<Rightarrow> string list" where
  "insert_special base include =
     (if \<not> include \<or> length base < 2 then []
      else concat (map (\<lambda>sp. map (\<lambda>i. take i base @ sp @ drop i base) [1..<length base])
                     [''!'', ''@'', ''1'', ''2'']))"

definition numeric_suffixes :: "string \<Rightarrow> string list \<Rightarrow> string list" where
  "numeric_suffixes base numbers =
     concat (map (\<lambda>n. [base @ n, n @ base])
               (numbers @ [''1'', ''2'', ''3'', ''123'', ''007'', ''69'', ''420'', ''12'', ''21'']))"

definition date_variants :: "dob_parts \<Rightarrow> error + string list" where
  "date_variants dob_parts =
     (let y = yyyy dob_parts
      in case py_int y of
           Inl e \<Rightarrow> Inl e
         | Inr n \<Rightarrow>
             Inr [full dob_parts,
                  dd dob_parts @ mm dob_parts @ y,
                  y, last_n 2 y,
                  str_int (n - 1), str_int (n + 1),
                  dd dob_parts @ ''-'' @ mm dob_parts @ ''-'' @ y])"

subsection \<open>The generator\<close>

text \<open>The closure \<open>add\<close> of \<open>generate_realistic\<close>, with the candidate set it updates
  passed in and returned.\<close>

definition add :: "int \<Rightarrow> int \<Rightarrow> string \<Rightarrow> string list \<Rightarrow> string list" where
  "add min_len max_len w candidates =
     (if min_len \<le> int (length w) \<and> int (length w) \<le> max_len \<and> w \<notin> set COMMON_BLACKLIST
      then set_add (w @ WATERMARK) candidates
      else candidates)"

definition add_all :: "int \<Rightarrow> int \<Rightarrow> string list \<Rightarrow> string list \<Rightarrow> string list" where
  "add_all min_len max_len ws candidates = fold (add min_len max_len) ws candidates"

text \<open>\<open>itertools.combinations(tokens, 2)\<close> and \<open>itertools.permutations(tokens, r)\<close>
  for \<open>r = 2, 3\<close>, by position and in the order itertools emits them.\<close>

fun combinations2 :: "'a list \<Rightarrow> ('a \<times> 'a) list" where
  "combinations2 [] = []"
| "combinations2 (x # xs) = map (\<lambda>y. (x, y)) xs @ combinations2 xs"

definition permutations2 :: "'a list \<Rightarrow> 'a list list" where
  "permutations2 ts =
     concat (map (\<lambda>i. map (\<lambda>j. [ts ! i, ts ! j]) (filter (\<lambda>j. j \<noteq> i) [0..<length ts]))
               [0..<length ts])"

definition permutations3 :: "'a list \<Rightarrow> 'a list list" where
  "permutations3 ts =
     concat (map (\<lambda>i. concat (map (\<lambda>j. map (\<lambda>k. [ts ! i, ts ! j, ts ! k])
                                        (filter (\<lambda>k. k \<noteq> i \<and> k \<noteq> j) [0..<length ts]))
                                (filter (\<lambda>j. j \<noteq> i) [0..<length ts])))
               [0..<length ts])"

text \<open>The numbers: the years, then the lucky number, then the phone's last four
  digits and the phone itself.\<close>

definition collect_numbers :: "orders \<Rightarrow> pydict \<Rightarrow> error + string list" where
  "collect_numbers env data =
     (case get_years env data of
        Inl e \<Rightarrow> Inl e
      | Inr numbers \<Rightarrow>
          (case (if truthy (get data ''lucky_number'')
                 then (case sanitize (get data ''lucky_number'') of
                         Inl e \<Rightarrow> Inl e
                       | Inr n \<Rightarrow> Inr (numbers @ [n]))
                 else Inr numbers) of
             Inl e \<Rightarrow> Inl e
           | Inr numbers' \<Rightarrow>
               (if truthy (get data ''phone'')
                then (case sanitize (get data ''phone'') of
                        Inl e \<Rightarrow> Inl e
                      | Inr phone \<Rightarrow>
                          (if fullmatch (replicate 10 is_digit) phone
                           then Inr (numbers' @ [last_n 4 phone, phone])
                           else Inr numbers'))
                else Inr numbers')))"

text \<open>\<open>sanitize(data.get("full_name") or data.get("nickname") or "")\<close>.\<close>

definition get_name :: "pydict \<Rightarrow> error + string" where
  "get_name data =
     sanitize (if truthy (get data ''full_name'') then get data ''full_name''
               else if truthy (get data ''nickname'') then get data ''nickname''
               else Atom (PStr []))"

text \<open>The name combined with the date variants, then with the lucky number.\<close>

definition seed_dates ::
  "int \<Rightarrow> int \<Rightarrow> string \<Rightarrow> dob_parts option \<Rightarrow> string list \<Rightarrow> error + string list" where
  "seed_dates min_len max_len name dob_parts candidates =
     (case dob_parts of
        None \<Rightarrow> Inr candidates
      | Some p \<Rightarrow>
          (if name \<noteq> []
           then (case date_variants p of
                   Inl e \<Rightarrow> Inl e
                 | Inr ds \<Rightarrow>
                     Inr (add_all min_len max_len
                            (concat (map (\<lambda>d. [name @ d, d @ name]) ds)) candidates))
           else Inr candidates))"

definition seed_lucky ::
  "int \<Rightarrow> int \<Rightarrow> string \<Rightarrow> pydict \<Rightarrow> string list \<Rightarrow> error + string list" where
  "seed_lucky min_len max_len name data candidates =
     (if name \<noteq> [] \<and> truthy (get data ''lucky_number'')
      then (case sanitize (get data ''lucky_number'') of
              Inl e \<Rightarrow> Inl e
            | Inr n \<Rightarrow> Inr (add_all min_len max_len [name @ n, n @ name] candidates))
      else Inr candidates)"

definition pairwise :: "int \<Rightarrow> int \<Rightarrow> string list \<Rightarrow> string list \<Rightarrow> string list" where
  "pairwise min_len max_len tokens candidates =
     add_all min_len max_len
       (concat (map (\<lambda>(a, b). [a @ b, a @ ''.'' @ b, a @ ''_'' @ b]) (combinations2 tokens)))
       candidates"

text \<open>A stage \<open>for w in list(candidates)[:cap]: for v in f(w[:-len(WATERMARK)]): add(v)\<close>;
  the list is taken once, before the loop.\<close>

definition stage ::
  "int \<Rightarrow> int \<Rightarrow> nat list \<Rightarrow> nat \<Rightarrow> (string \<Rightarrow> string list) \<Rightarrow> string list \<Rightarrow> string list" where
  "stage min_len max_len key cap f candidates =
     add_all min_len max_len
       (concat (map (\<lambda>w. f (drop_last_n (length WATERMARK) w)) (take cap (permute key candidates))))
       candidates"

definition transforms ::
  "orders \<Rightarrow> int \<Rightarrow> int \<Rightarrow> bool \<Rightarrow> bool \<Rightarrow> string list \<Rightarrow> string list \<Rightarrow> string list" where
  "transforms env min_len max_len include_specials include_uppercase numbers candidates =
     (let c1 = (if include_uppercase
                then stage min_len max_len (case_order env) 300 (\<lambda>b. case_variants b True) candidates
                else candidates);
          c2 = stage min_len max_len (leet_order env) 200 leet_variants c1;
          c3 = (if include_specials
                then stage min_len max_len (specials_order env) 400
                       (\<lambda>b. append_specials b True @ insert_special b True) c2
                else c2)
      in stage min_len max_len (numeric_order env) 300 (\<lambda>b. numeric_suffixes b numbers) c3)"

text \<open>The fallback loop \<open>for p in perms: if remaining <= 0: break; add(p); remaining -= 1\<close>.
  It returns the candidates and the permutations it has not reached when it stops.\<close>

fun fallback_loop ::
  "int \<Rightarrow> int \<Rightarrow> int \<Rightarrow> string list \<Rightarrow> string list \<Rightarrow> string list \<times> string list" where
  "fallback_loop min_len max_len remaining [] candidates = (candidates, [])"
| "fallback_loop min_len max_len remaining (p # ps) candidates =
     (if remaining \<le> 0 then (candidates, p # ps)
      else fallback_loop min_len max_len (remaining - 1) ps (add min_len max_len p candidates))"

definition fallback_perms :: "orders \<Rightarrow> string list \<Rightarrow> string list" where
  "fallback_perms env tokens =
     permute (perms_shuffle env) (map concat (permutations2 tokens @ permutations3 tokens))"

definition fallback ::
  "orders \<Rightarrow> int \<Rightarrow> int \<Rightarrow> int \<Rightarrow> string list \<Rightarrow> string list \<Rightarrow> string list \<times> string list" where
  "fallback env count min_len max_len tokens candidates =
     (let remaining = count - int (length candidates)
      in if remaining > 0
         then fallback_loop min_len max_len remaining (fallback_perms env tokens) candidates
         else (candidates, []))"

text \<open>\<open>xs[:stop]\<close>: a negative stop counts from the end.\<close>

definition slice_to :: "int \<Rightarrow> 'a list \<Rightarrow> 'a list" where
  "slice_to stop xs = (if 0 \<le> stop then take (nat stop) xs else take (length xs - nat (- stop)) xs)"

definition select_output :: "orders \<Rightarrow> int \<Rightarrow> string list \<Rightarrow> string list" where
  "select_output env count candidates =
     slice_to (min count MAX_OUTPUT)
       (permute (final_shuffle env) (permute (final_order env) candidates))"

text \<open>The candidate set after the seeding, the pairwise concatenation and the four
  transform stages, and the one the output is selected from.\<close>

definition stages ::
  "orders \<Rightarrow> pydict \<Rightarrow> int \<Rightarrow> int \<Rightarrow> bool \<Rightarrow> bool \<Rightarrow> string list \<Rightarrow> error + string list" where
  "stages env data min_len max_len include_specials include_uppercase tokens =
     (case collect_numbers env data of
        Inl e \<Rightarrow> Inl e
      | Inr numbers \<Rightarrow>
          (case get_name data of
             Inl e \<Rightarrow> Inl e
           | Inr name \<Rightarrow>
               (case seed_dates min_len max_len name (try_parse_dob data) [] of
                  Inl e \<Rightarrow> Inl e
                | Inr c0 \<Rightarrow>
                    (case seed_lucky min_len max_len name data c0 of
                       Inl e \<Rightarrow> Inl e
                     | Inr c1 \<Rightarrow>
                         Inr (transforms env min_len max_len include_specials include_uppercase
                                numbers (pairwise min_len max_len tokens c1))))))"

definition accumulate ::
  "orders \<Rightarrow> pydict \<Rightarrow> int \<Rightarrow> int \<Rightarrow> int \<Rightarrow> bool \<Rightarrow> bool \<Rightarrow> string list \<Rightarrow> error + string list" where
  "accumulate env data count min_len max_len include_specials include_uppercase tokens =
     (case stages env data min_len max_len include_specials include_uppercase tokens of
        Inl e \<Rightarrow> Inl e
      | Inr candidates \<Rightarrow> Inr (fst (fallback env count min_len max_len tokens candidates)))"

definition generate_realistic ::
  "orders \<Rightarrow> pydict \<Rightarrow> int \<Rightarrow> int \<Rightarrow> int \<Rightarrow> bool \<Rightarrow> bool \<Rightarrow> error + string list" where
  "generate_realistic env data count min_len max_len include_specials include_uppercase =
     (case extract_tokens env data of
        Inl e \<Rightarrow> Inl e
      | Inr tokens \<Rightarrow>
          (if tokens = [] then Inr []
           else (case accumulate env data count min_len max_len include_specials include_uppercase
                        tokens of
                   Inl e \<Rightarrow> Inl e
                 | Inr candidates \<Rightarrow> Inr (select_output env count candidates))))"

subsection \<open>Properties of the output\<close>

text \<open>\<open>w.endswith(suffix)\<close>.\<close>

definition endswith :: "string \<Rightarrow> string \<Rightarrow> bool" where
  "endswith w suffix = (length suffix \<le> length w \<and> last_n (length suffix) w = suffix)"

text \<open>A string with the marker removed.\<close>

definition unmarked :: "string \<Rightarrow> string" where
  "unmarked w = drop_last_n (length WATERMARK) w"

text \<open>What every member of the candidate set satisfies: it carries the marker and its
  length without the marker is within the bounds.\<close>

definition admitted :: "int \<Rightarrow> int \<Rightarrow> string \<Rightarrow> bool" where
  "admitted min_len max_len w =
     (endswith w WATERMARK \<and> min_len \<le> int (length (unmarked w)) \<and>
      int (length (unmarked w)) \<le> max_len)"

definition well_formed :: "int \<Rightarrow> int \<Rightarrow> string list \<Rightarrow> bool" where
  "well_formed min_len max_len candidates =
     (distinct candidates \<and> list_all (admitted min_len max_len) candidates)"

text \<open>The tokens one field contributes: its sanitized value when it is a string, the
  sanitized strings among its elements when it is a list. For \<open>extra_words\<close> a string
  is iterated character by character.\<close>

definition value_tokens :: "pyval \<Rightarrow> string list" where
  "value_tokens v =
     (case v of
        Atom (PStr s) \<Rightarrow> [sanitize_str s]
      | PList xs \<Rightarrow> concat (map (\<lambda>x. case x of PStr s \<Rightarrow> [sanitize_str s] | _ \<Rightarrow> []) xs)
      | _ \<Rightarrow> [])"

definition extra_tokens :: "pyval \<Rightarrow> string list" where
  "extra_tokens v =
     (case v of
        Atom (PStr s) \<Rightarrow> map (\<lambda>c. sanitize_str [c]) s
      | PList xs \<Rightarrow> concat (map (\<lambda>x. case x of PStr s \<Rightarrow> [sanitize_str s] | _ \<Rightarrow> []) xs)
      | _ \<Rightarrow> [])"

text \<open>The control fields the specification lists.\<close>

definition control_fields :: "string list" where
  "control_fields =
     [''count'', ''min_len'', ''max_len'', ''include_specials'', ''include_uppercase'',
      ''auth_phrase'']"

text \<open>The shape DD/MM/YYYY in words: two digits, a slash, two digits, a slash, four
  digits, and nothing else.\<close>

definition dd_mm_yyyy :: "string \<Rightarrow> bool" where
  "dd_mm_yyyy s =
     (length s = 10 \<and> list_all is_digit (take 2 s) \<and> s ! 2 = CHR ''/'' \<and>
      list_all is_digit (take 2 (drop 3 s)) \<and> s ! 5 = CHR ''/'' \<and>
      list_all is_digit (drop 6 s))"

text \<open>The keys \<open>generate_realistic\<close> and its helpers read by name, and a record with
  one key renamed.\<close>

definition read_keys :: "string list" where
  "read_keys =
     [''dob'', ''extra_words'', ''important_years'', ''lucky_number'', ''phone'',
      ''full_name'', ''nickname'']"

definition rename_key :: "string \<Rightarrow> string \<Rightarrow> pydict \<Rightarrow> pydict" where
  "rename_key old new data = map (\<lambda>(k, v). (if k = old then new else k, v)) data"

text \<open>The test of \<open>add\<close> on a string before the marker is appended.\<close>

definition admissible :: "int \<Rightarrow> int \<Rightarrow> string \<Rightarrow> bool" where
  "admissible min_len max_len w =
     (min_len \<le> int (length w) \<and> int (length w) \<le> max_len \<and> w \<notin> set COMMON_BLACKLIST)"

text \<open>The capitalised form that keeps the case of every character but the first.\<close>

definition capitalize_preserving :: "string \<Rightarrow> string" where
  "capitalize_preserving base = (case base of [] \<Rightarrow> [] | c # cs \<Rightarrow> to_upper c # cs)"

subsection \<open>Sample inputs\<close>

definition plain_orders :: orders where
  "plain_orders =
     \<lparr>tokens_order = [], years_order = [], case_order = [], leet_order = [],
      specials_order = [], numeric_order = [], perms_shuffle = [], final_order = [],
      final_shuffle = []\<rparr>"

definition mixed_orders :: orders where
  "mixed_orders =
     \<lparr>tokens_order = [1], years_order = [], case_order = [], leet_order = [],
      specials_order = [], numeric_order = [], perms_shuffle = [1], final_order = [2, 0],
      final_shuffle = [1]\<rparr>"

definition two_names :: pydict where
  "two_names = [(''full_name'', Atom (PStr ''Abc'')), (''nickname'', Atom (PStr ''de fg''))]"

definition short_names :: pydict where
  "short_names = [(''full_name'', Atom (PStr ''ab'')), (''nickname'', Atom (PStr ''cd''))]"

definition three_short :: pydict where
  "three_short =
     [(''full_name'', Atom (PStr ''ab'')), (''nickname'', Atom (PStr ''cd'')),
      (''pet'', Atom (PStr ''ef''))]"

definition years_only :: pydict where
  "years_only = [(''count'', Atom (PInt 10)), (''important_years'', PList [PStr ''1990'', PStr ''2001''])]"

definition malformed_dob :: pydict where
  "malformed_dob = [(''full_name'', Atom (PStr ''Abc'')), (''dob'', Atom (PStr ''1990-06-15''))]"

definition with_extras :: pydict where
  "with_extras =
     [(''full_name'', Atom (PStr ''Abc'')), (''important_years'', PList [PStr ''1990'']),
      (''pets'', PList [PStr ''Rex'', PNone, PStr '' '']),
      (''extra_words'', PList [PStr ''Blue'']), (''count'', Atom (PInt 10))]"

text \<open>The record of the John Smith example, the name and date candidates it seeds
  within the default length bounds, and the candidates without marker after the case
  stage, in insertion order.\<close>

definition john_smith :: pydict where
  "john_smith = [(''dob'', Atom (PStr ''15/06/1990'')), (''full_name'', Atom (PStr ''John Smith'')), (''extra_words'', PList [PStr ''Rex''])]"

definition name_date_seeds :: "string list" where
  "name_date_seeds =
     [''johnsmith1990--EDU'', ''1990johnsmith--EDU'', ''johnsmith90--EDU'',
      ''90johnsmith--EDU'', ''johnsmith1989--EDU'', ''1989johnsmith--EDU'',
      ''johnsmith1991--EDU'', ''1991johnsmith--EDU'']"

definition case_bases :: "string list" where
  "case_bases =
 [''johnsmith1990'', ''1990johnsmith'', ''johnsmith90'', ''90johnsmith'',
  ''johnsmith1989'', ''1989johnsmith'', ''johnsmith1991'',
  ''1991johnsmith'', ''15/06/1990rex'', ''15/06/1990.rex'',
  ''15/06/1990_rex'', ''johnsmithrex'', ''johnsmith.rex'',
  ''johnsmith_rex'', ''JOHNSMITH1990'', ''Johnsmith1990'',
  ''JoHnSmItH1990'', ''1990JOHNSMITH'', ''1990JoHnSmItH'', ''JOHNSMITH90'',
  ''Johnsmith90'', ''JoHnSmItH90'', ''90JOHNSMITH'', ''90JoHnSmItH'',
  ''JOHNSMITH1989'', ''Johnsmith1989'', ''JoHnSmItH1989'',
  ''1989JOHNSMITH'', ''1989JoHnSmItH'', ''JOHNSMITH1991'',
  ''Johnsmith1991'', ''JoHnSmItH1991'', ''1991JOHNSMITH'',
  ''1991JoHnSmItH'', ''15/06/1990REX'', ''15/06/1990ReX'',
  ''15/06/1990.REX'', ''15/06/1990.rEx'', ''15/06/1990_REX'',
  ''15/06/1990_rEx'', ''JOHNSMITHREX'', ''Johnsmithrex'', ''JoHnSmItHrEx'',
  ''JOHNSMITH.REX'', ''Johnsmith.rex'', ''JoHnSmItH.ReX'',
  ''JOHNSMITH_REX'', ''Johnsmith_rex'', ''JoHnSmItH_ReX'']"

text \<open>A string mentions the name of the John Smith example when it holds the letter
  \<open>j\<close> in either case: \<open>johnsmith\<close> begins with it, and no transform removes or
  replaces it.\<close>

definition mentions_name :: "string \<Rightarrow> bool" where
  "mentions_name w = (CHR ''j'' \<in> set w \<or> CHR ''J'' \<in> set w)"

text \<open>The strings the generator derives from \<open>johnsmith\<close> and a date variant of
  \<open>15/06/1990\<close>: the two concatenations, and whatever a transform stage makes of a
  derived string.\<close>

definition john_date_variants :: "string list" where
  "john_date_variants =
     [''15061990'', ''15061990'', ''1990'', ''90'', ''1989'', ''1991'', ''15-06-1990'']"

inductive name_date_derived :: "string \<Rightarrow> bool" where
  name_first: "d \<in> set john_date_variants \<Longrightarrow> name_date_derived (''johnsmith'' @ d)"
| date_first: "d \<in> set john_date_variants \<Longrightarrow> name_date_derived (d @ ''johnsmith'')"
| cased: "name_date_derived b \<Longrightarrow> v \<in> set (case_variants b True) \<Longrightarrow> name_date_derived v"
| leeted: "name_date_derived b \<Longrightarrow> v \<in> set (leet_variants b) \<Longrightarrow> name_date_derived v"
| appended: "name_date_derived b \<Longrightarrow> v \<in> set (append_specials b True) \<Longrightarrow> name_date_derived v"
| inserted: "name_date_derived b \<Longrightarrow> v \<in> set (insert_special b True) \<Longrightarrow> name_date_derived v"
| suffixed: "name_date_derived b \<Longrightarrow> v \<in> set (numeric_suffixes b numbers) \<Longrightarrow> name_date_derived v"

text \<open>The candidates of the example that come from the date of birth and \<open>rex\<close>
  alone: the nine without marker after the case stage, the characters the specials
  stage inserts that occur in none of them, the candidate set after the case, leet
  and specials stages in insertion order, the insertions into the nine, the first
  three hundred of these in the order of the set, and the candidate set after the
  numeric stage with the strings that stage makes of the three hundred and a digit.\<close>

definition rex_bases :: "string list" where
  "rex_bases =
     [''15/06/1990rex'', ''15/06/1990.rex'', ''15/06/1990_rex'',
      ''15/06/1990REX'', ''15/06/1990ReX'', ''15/06/1990.REX'',
      ''15/06/1990.rEx'', ''15/06/1990_REX'', ''15/06/1990_rEx'']"

definition marks :: "char list" where
  "marks = ''!@2''"

definition john_c2 :: "string list" where
  "john_c2 = map (\<lambda>b. b @ WATERMARK) case_bases"

definition john_c3 :: "string list" where
  "john_c3 = stage 6 16 [] 200 leet_variants john_c2"

definition john_c4 :: "string list" where
  "john_c4 = stage 6 16 [] 400 (\<lambda>b. append_specials b True @ insert_special b True) john_c3"

definition rex_family :: "string set" where
  "rex_family =
     (\<lambda>(b, sp, i). take i b @ sp # drop i b @ WATERMARK) `
       (SIGMA b:set rex_bases. set marks \<times> {1..<length b})"

definition rex_first :: "string list" where
  "rex_first = take 300 (filter (\<lambda>w. w \<in> rex_family) john_c4)"

definition john_c5 :: "nat list \<Rightarrow> string list \<Rightarrow> string list" where
  "john_c5 k ns = stage 6 16 k 300 (\<lambda>b. numeric_suffixes b ns) john_c4"

definition digit_family :: "string set" where
  "digit_family =
     (\<lambda>(w, n). drop_last_n (length WATERMARK) w @ n # WATERMARK) ` (set rex_first \<times> set ''123'')"

section \<open>Iteration orders and the set representation\<close>

lemma length_remove_nth: "i < length xs \<Longrightarrow> length (remove_nth i xs) = length xs - 1"
  by (simp add: remove_nth_def)

lemma set_remove_nth: "i < length xs \<Longrightarrow> insert (xs ! i) (set (remove_nth i xs)) = set xs"
proof -
  assume h: "i < length xs"
  have "set xs = set (take i xs @ xs ! i # drop (Suc i) xs)"
    using id_take_nth_drop [OF h] by simp
  then show ?thesis by (simp add: remove_nth_def)
qed

lemma distinct_remove_nth:
  assumes "i < length xs" "distinct xs"
  shows "distinct (remove_nth i xs) \<and> xs ! i \<notin> set (remove_nth i xs)"
proof -
  have "distinct (take i xs @ xs ! i # drop (Suc i) xs)"
    using id_take_nth_drop [OF assms(1)] assms(2) by simp
  then show ?thesis by (auto simp add: remove_nth_def)
qed

lemma set_permute: "set (permute ks xs) = set xs"
proof (induction ks xs rule: permute.induct)
  case (3 k ks x xs)
  have lt: "k mod length (x # xs) < length (x # xs)" by simp
  show ?case using 3 set_remove_nth [OF lt] by (simp add: Let_def del: length_Cons nth_Cons_Suc)
qed simp_all

lemma length_permute: "length (permute ks xs) = length xs"
proof (induction ks xs rule: permute.induct)
  case (3 k ks x xs)
  have lt: "k mod length (x # xs) < length (x # xs)" by simp
  show ?case using 3 length_remove_nth [OF lt] by (simp add: Let_def del: nth_Cons_Suc)
qed simp_all

lemma distinct_permute: "distinct xs \<Longrightarrow> distinct (permute ks xs)"
proof (induction ks xs rule: permute.induct)
  case (3 k ks x xs)
  have lt: "k mod length (x # xs) < length (x # xs)" by simp
  from distinct_remove_nth [OF lt "3.prems"]
  have d: "distinct (remove_nth (k mod length (x # xs)) (x # xs))"
    and n: "(x # xs) ! (k mod length (x # xs)) \<notin> set (remove_nth (k mod length (x # xs)) (x # xs))"
    by blast+
  from "3.IH" [OF refl d] n show ?case
    by (simp add: Let_def set_permute del: length_Cons nth_Cons_Suc)
qed simp_all

text \<open>Every rearrangement of a list is the one some key chooses, so a statement
  proved for every key covers every iteration order and every shuffle.\<close>

lemma count_list_remove_nth:
  assumes "i < length xs"
  shows "count_list xs x = count_list (remove_nth i xs) x + (if xs ! i = x then 1 else 0)"
proof -
  have "count_list xs x = count_list (take i xs @ xs ! i # drop (Suc i) xs) x"
    using id_take_nth_drop [OF assms] by simp
  then show ?thesis by (simp add: remove_nth_def)
qed

lemma count_list_all_zero:
  assumes "\<And>x. count_list xs x = 0"
  shows "xs = []"
proof (cases xs)
  case Nil
  then show ?thesis .
next
  case (Cons a list)
  with assms [of a] show ?thesis by simp
qed

lemma permute_complete:
  "(\<And>x. count_list ys x = count_list xs x) \<Longrightarrow> \<exists>ks. permute ks xs = ys"
proof (induction ys arbitrary: xs)
  case Nil
  then have "xs = []" by (intro count_list_all_zero) simp
  then show ?case by (intro exI [of _ "[]"]) simp
next
  case (Cons y ys)
  from Cons.prems [of y] have "0 < count_list xs y" by simp
  then have "y \<in> set xs" by (cases "y \<in> set xs") simp_all
  then obtain i where i: "i < length xs" and y: "xs ! i = y" by (auto simp add: in_set_conv_nth)
  have "count_list ys x = count_list (remove_nth i xs) x" for x
    using Cons.prems [of x] count_list_remove_nth [OF i, of x] y by (simp split: if_splits)
  from Cons.IH [OF this] obtain ks where ks: "permute ks (remove_nth i xs) = ys" by blast
  from i obtain z zs where xs: "xs = z # zs" by (cases xs) auto
  have "permute (i # ks) xs = xs ! i # permute ks (remove_nth i xs)"
    using i unfolding xs by (simp add: Let_def del: nth_Cons_Suc length_Cons)
  with ks y show ?case by blast
qed

lemma set_set_add: "set (set_add x xs) = insert x (set xs)"
  by (auto simp add: set_add_def)

lemma distinct_set_add: "distinct xs \<Longrightarrow> distinct (set_add x xs)"
  by (simp add: set_add_def)

section \<open>The candidate set stays well formed\<close>

lemma admitted_marked:
  "min_len \<le> int (length w) \<Longrightarrow> int (length w) \<le> max_len \<Longrightarrow> admitted min_len max_len (w @ WATERMARK)"
  by (simp add: admitted_def endswith_def unmarked_def last_n_def drop_last_n_def)

lemma well_formed_add:
  "well_formed min_len max_len c \<Longrightarrow> well_formed min_len max_len (add min_len max_len w c)"
  by (auto simp add: well_formed_def add_def list_all_iff set_set_add distinct_set_add admitted_marked)

lemma well_formed_add_all:
  "well_formed min_len max_len c \<Longrightarrow> well_formed min_len max_len (add_all min_len max_len ws c)"
  unfolding add_all_def by (induction ws arbitrary: c) (simp_all add: well_formed_add)

lemma well_formed_stage:
  "well_formed min_len max_len c \<Longrightarrow> well_formed min_len max_len (stage min_len max_len key cap f c)"
  by (simp add: stage_def well_formed_add_all)

lemma well_formed_transforms:
  "well_formed min_len max_len c \<Longrightarrow>
   well_formed min_len max_len (transforms env min_len max_len sp up numbers c)"
  by (simp add: transforms_def Let_def well_formed_stage)

lemma well_formed_pairwise:
  "well_formed min_len max_len c \<Longrightarrow> well_formed min_len max_len (pairwise min_len max_len tokens c)"
  by (simp add: pairwise_def well_formed_add_all)

lemma well_formed_fallback_loop:
  "well_formed min_len max_len c \<Longrightarrow>
   well_formed min_len max_len (fst (fallback_loop min_len max_len r ps c))"
  by (induction min_len max_len r ps c rule: fallback_loop.induct) (simp_all add: well_formed_add)

lemma well_formed_fallback:
  "well_formed min_len max_len c \<Longrightarrow>
   well_formed min_len max_len (fst (fallback env count min_len max_len tokens c))"
  by (simp add: fallback_def Let_def well_formed_fallback_loop)

lemma well_formed_Nil: "well_formed min_len max_len []"
  by (simp add: well_formed_def)

lemma well_formed_seed_dates:
  "well_formed min_len max_len c \<Longrightarrow> seed_dates min_len max_len name p c = Inr c' \<Longrightarrow>
   well_formed min_len max_len c'"
  by (auto simp add: seed_dates_def well_formed_add_all split: option.splits if_splits sum.splits)

lemma well_formed_seed_lucky:
  "well_formed min_len max_len c \<Longrightarrow> seed_lucky min_len max_len name data c = Inr c' \<Longrightarrow>
   well_formed min_len max_len c'"
  by (auto simp add: seed_lucky_def well_formed_add_all split: if_splits sum.splits)

lemma well_formed_stages:
  "stages env data min_len max_len sp up tokens = Inr c \<Longrightarrow> well_formed min_len max_len c"
  unfolding stages_def
  by (auto split: sum.splits
      intro!: well_formed_transforms well_formed_pairwise
      dest!: well_formed_seed_lucky [rotated] well_formed_seed_dates [rotated] simp add: well_formed_Nil)

lemma well_formed_accumulate:
  "accumulate env data count min_len max_len sp up tokens = Inr c \<Longrightarrow> well_formed min_len max_len c"
  unfolding accumulate_def
  by (auto split: sum.splits dest!: well_formed_stages intro: well_formed_fallback)

lemma set_slice_to: "set (slice_to stop xs) \<subseteq> set xs"
  by (auto simp add: slice_to_def dest: in_set_takeD)

lemma distinct_slice_to: "distinct xs \<Longrightarrow> distinct (slice_to stop xs)"
  by (simp add: slice_to_def)

lemma set_select_output: "set (select_output env count c) \<subseteq> set c"
  using set_slice_to [of "min count MAX_OUTPUT" "permute (final_shuffle env) (permute (final_order env) c)"]
  by (simp add: select_output_def set_permute)

lemma distinct_select_output: "distinct c \<Longrightarrow> distinct (select_output env count c)"
  by (simp add: select_output_def distinct_slice_to distinct_permute)

lemma length_select_output:
  "0 \<le> count \<Longrightarrow> int (length (select_output env count c)) \<le> min count MAX_OUTPUT"
proof -
  assume h: "0 \<le> count"
  have "0 \<le> min count MAX_OUTPUT" using h by (simp add: MAX_OUTPUT_def)
  then have "length (select_output env count c) \<le> nat (min count MAX_OUTPUT)"
    by (simp add: select_output_def slice_to_def)
  then show ?thesis using \<open>0 \<le> min count MAX_OUTPUT\<close> by linarith
qed

lemma generate_realistic_cases:
  assumes "generate_realistic env data count min_len max_len sp up = Inr res"
  shows "res = [] \<or> (\<exists>tokens c. accumulate env data count min_len max_len sp up tokens = Inr c \<and>
            res = select_output env count c)"
  using assms unfolding generate_realistic_def
  by (auto split: sum.splits if_splits)

lemma generate_two_names:
  "generate_realistic mixed_orders two_names 5 7 7 False False =
     Inr [''defgabc--EDU'', ''abcdefg--EDU'', ''d3f948c--EDU'']"
  by code_simp

section \<open>The claims\<close>

text \<open>
  C1. Every string of the sequence \<open>generate_realistic\<close> returns ends with the marker
  \<open>--EDU\<close>, and its length with the marker removed lies between \<open>min_len\<close> and
  \<open>max_len\<close>.
\<close>

theorem result_marked_and_bounded:
  assumes "generate_realistic env data count min_len max_len include_specials include_uppercase = Inr res"
    and "w \<in> set res"
  shows "endswith w WATERMARK \<and> min_len \<le> int (length (unmarked w)) \<and>
         int (length (unmarked w)) \<le> max_len"
proof -
  from generate_realistic_cases [OF assms(1)] assms(2)
  obtain tokens c where c: "accumulate env data count min_len max_len include_specials include_uppercase tokens = Inr c"
    and res: "res = select_output env count c" by auto
  from well_formed_accumulate [OF c] have "list_all (admitted min_len max_len) c"
    by (simp add: well_formed_def)
  moreover from assms(2) res set_select_output have "w \<in> set c" by blast
  ultimately have "admitted min_len max_len w" by (simp add: list_all_iff)
  then show ?thesis by (simp add: admitted_def)
qed

theorem result_marked_and_bounded_witness:
  "generate_realistic mixed_orders two_names 5 7 7 False False =
     Inr [''defgabc--EDU'', ''abcdefg--EDU'', ''d3f948c--EDU''] \<and>
   endswith ''d3f948c--EDU'' WATERMARK \<and> 7 \<le> int (length (unmarked ''d3f948c--EDU'')) \<and>
   int (length (unmarked ''d3f948c--EDU'')) \<le> 7"
proof -
  have m: "''d3f948c--EDU'' \<in> set [''defgabc--EDU'', ''abcdefg--EDU'', ''d3f948c--EDU'']"
    by simp
  from result_marked_and_bounded [OF generate_two_names m] generate_two_names
  show ?thesis by simp
qed

text \<open>
  C10. The sequence \<open>generate_realistic\<close> returns has no duplicates.
\<close>

theorem result_distinct:
  assumes "generate_realistic env data count min_len max_len include_specials include_uppercase = Inr res"
  shows "distinct res"
proof -
  from generate_realistic_cases [OF assms] show ?thesis
  proof
    assume "res = []" then show ?thesis by simp
  next
    assume "\<exists>tokens c. accumulate env data count min_len max_len include_specials include_uppercase tokens = Inr c \<and>
            res = select_output env count c"
    then obtain tokens c where c: "accumulate env data count min_len max_len include_specials include_uppercase tokens = Inr c"
    and res: "res = select_output env count c" by auto
    from well_formed_accumulate [OF c] have "distinct c" by (simp add: well_formed_def)
    then show ?thesis using res by (simp add: distinct_select_output)
  qed
qed

theorem result_distinct_witness:
  "generate_realistic mixed_orders two_names 5 7 7 False False =
     Inr [''defgabc--EDU'', ''abcdefg--EDU'', ''d3f948c--EDU''] \<and>
   distinct [''defgabc--EDU'', ''abcdefg--EDU'', ''d3f948c--EDU'']"
  using result_distinct [OF generate_two_names] generate_two_names by simp

text \<open>
  C7, as the code has it. For a count that is not negative, the sequence
  \<open>generate_realistic\<close> returns has at most \<open>min(count, 5000)\<close> elements. (A negative
  count makes the final slice \<open>final[:count]\<close> count from the end.)
\<close>

theorem result_length_bounded:
  assumes "generate_realistic env data count min_len max_len include_specials include_uppercase = Inr res"
    and "0 \<le> count"
  shows "int (length res) \<le> min count MAX_OUTPUT"
  using generate_realistic_cases [OF assms(1)] assms(2) length_select_output [OF assms(2)]
  by (auto simp add: MAX_OUTPUT_def)

theorem result_length_bounded_witness:
  "generate_realistic mixed_orders two_names 5 7 7 False False =
     Inr [''defgabc--EDU'', ''abcdefg--EDU'', ''d3f948c--EDU''] \<and> (0::int) \<le> 5 \<and>
   int (length [''defgabc--EDU'', ''abcdefg--EDU'', ''d3f948c--EDU'']) \<le> min 5 MAX_OUTPUT"
proof -
  have h: "(0::int) \<le> 5" by simp
  from result_length_bounded [OF generate_two_names h] generate_two_names
  show ?thesis by simp
qed

text \<open>
  C7, as stated, fails for a negative count: with \<open>count = -1\<close> the generator returns
  one string, more than \<open>min(-1, 5000)\<close>.
\<close>

theorem result_length_negative_count:
  "generate_realistic mixed_orders two_names (- 1) 7 7 False False = Inr [''d3f948c--EDU''] \<and>
   \<not> int (length [''d3f948c--EDU'']) \<le> min (- 1) MAX_OUTPUT"
  by code_simp

text \<open>
  C8. When token extraction yields no token, \<open>generate_realistic\<close> returns the empty
  sequence, a result and not an error, whatever the other fields and parameters are.
\<close>

theorem empty_tokens_empty_result:
  assumes "extract_tokens env data = Inr []"
  shows "generate_realistic env data count min_len max_len include_specials include_uppercase = Inr []"
  using assms by (simp add: generate_realistic_def)

theorem empty_tokens_empty_result_witness:
  "extract_tokens plain_orders years_only = Inr [] \<and>
   generate_realistic plain_orders years_only 1000 6 16 True True = Inr []"
proof -
  have h: "extract_tokens plain_orders years_only = Inr []" by code_simp
  from empty_tokens_empty_result [OF h] h show ?thesis by simp
qed

text \<open>
  C2. On \<open>password\<close> the code yields the fully substituted variant and then, for each
  of the four substitutable positions, the base itself with nothing substituted: the
  translation table has ordinals as keys, and the look-up of the character finds
  nothing.
\<close>

theorem leet_variants_password:
  "leet_variants ''password'' =
     [''p455w0rd'', ''password'', ''password'', ''password'', ''password'']"
  by code_simp

lemma table_get_leet: "table_get (maketrans leet_map) c = [c]"
  by (simp add: table_get_def maketrans_def leet_map_def)

lemma leet_single_unchanged: "v \<in> set (tl (leet_variants token)) \<Longrightarrow> v = token"
  by (auto simp add: leet_variants_def Let_def table_get_leet in_set_enumerate_eq id_take_nth_drop [symmetric])

text \<open>
  C5, as the code has it. With \<open>include_upper\<close> set, \<open>case_variants\<close> yields as its
  third string the capitalised base: first character upper-cased, the others
  lower-cased.
\<close>

theorem case_variants_capitalized:
  "case_variants base True ! 2 = (case base of [] \<Rightarrow> [] | c # cs \<Rightarrow> to_upper c # lower cs)"
  by (cases base) (simp_all add: case_variants_def lower_def)

text \<open>
  C5, as stated, fails on \<open>aBc\<close>: no variant is \<open>ABc\<close>, the base with its first letter
  upper-cased and the rest unchanged.
\<close>

theorem case_variants_not_preserving:
  "case_variants ''aBc'' True = [''abc'', ''ABC'', ''Abc'', ''AbC''] \<and>
   capitalize_preserving ''aBc'' = ''ABc'' \<and>
   capitalize_preserving ''aBc'' \<notin> set (case_variants ''aBc'' True)"
  by code_simp

lemma fallback_loop_take: 
  "fallback_loop min_len max_len r ps c = (add_all min_len max_len (take (nat r) ps) c, drop (nat r) ps)"
proof (induction min_len max_len r ps c rule: fallback_loop.induct)
  case (1 min_len max_len remaining candidates)
  then show ?case by (simp add: add_all_def)
next
  case (2 min_len max_len remaining p ps candidates)
  show ?case
  proof (cases "remaining \<le> 0")
    case True
    then show ?thesis by (simp add: add_all_def)
  next
    case False
    then have "nat remaining = Suc (nat (remaining - 1))" by simp
    with False 2 show ?thesis by (simp add: add_all_def)
  qed
qed

text \<open>
  What the fallback computes: the first \<open>count - len(candidates)\<close> shuffled
  permutations (the difference taken before the loop) are fed through \<open>add\<close>, the
  others are not reached.
\<close>

lemma fallback_attempt_budget:
  "fallback env count min_len max_len tokens c =
     (if int (length c) < count
      then (add_all min_len max_len
              (take (nat (count - int (length c))) (fallback_perms env tokens)) c,
            drop (nat (count - int (length c))) (fallback_perms env tokens))
      else (c, [])) \<and>
   set (fallback_perms env tokens) = set (map concat (permutations2 tokens @ permutations3 tokens))"
  by (simp add: fallback_def Let_def fallback_loop_take fallback_perms_def set_permute)

text \<open>
  C3. The fallback is there to fill the candidate set up to \<open>count\<close>: its loop
  should stop only when the set has \<open>count\<close> members or the permutations are
  exhausted. The code misses this, because \<open>remaining\<close> is decreased for every
  permutation fed, admitted or not. For the record with \<open>full_name = ab\<close> and
  \<open>nickname = cd\<close>, \<open>min_len = 6\<close> and \<open>count = 1\<close>, the loop stops after one
  rejected permutation: the set is empty, a permutation is left unread, and the
  generator returns the empty sequence.
\<close>

theorem fallback_stops_early:
  "extract_tokens plain_orders short_names = Inr [''ab'', ''cd''] \<and>
   stages plain_orders short_names 6 16 True True [''ab'', ''cd''] = Inr [] \<and>
   fallback plain_orders 1 6 16 [''ab'', ''cd''] [] = ([], [''cdab'']) \<and>
   \<not> (1 \<le> int (length ([] :: string list)) \<or> [''cdab''] = []) \<and>
   generate_realistic plain_orders short_names 1 6 16 True True = Inr []"
  by code_simp

text \<open>
  With a third short token the permutation the loop does not reach is one \<open>add\<close>
  would admit: for \<open>ab\<close>, \<open>cd\<close>, \<open>ef\<close> and permutations left in the order they are
  generated, the loop stops after rejecting \<open>abcd\<close>, and \<open>abcdef\<close> is never fed.
\<close>

lemma fallback_leaves_admissible:
  "extract_tokens plain_orders three_short = Inr [''ab'', ''cd'', ''ef''] \<and>
   stages plain_orders three_short 6 16 True True [''ab'', ''cd'', ''ef''] = Inr [] \<and>
   fst (fallback plain_orders 1 6 16 [''ab'', ''cd'', ''ef''] []) = [] \<and>
   ''abcdef'' \<in> set (snd (fallback plain_orders 1 6 16 [''ab'', ''cd'', ''ef''] [])) \<and>
   admissible 6 16 ''abcdef'' \<and>
   generate_realistic plain_orders three_short 1 6 16 True True = Inr []"
  by code_simp

section \<open>Token extraction\<close>

lemma sanitize_str_Nil: "sanitize_str [] = []"
  by (simp add: sanitize_str_def lower_def strip_def re_sub_space_def)

lemma sanitize_PStr: "sanitize (Atom (PStr s)) = Inr (sanitize_str s)"
  by (simp add: sanitize_def sanitize_str_Nil)

lemma set_set_update: "set (set_update new xs) = set new \<union> set xs"
  unfolding set_update_def by (induction new arbitrary: xs) (auto simp add: set_set_add)

lemma sanitize_each_set:
  "sanitize_each xs = Inr ts \<Longrightarrow>
   set ts - {[]} = set (concat (map (\<lambda>x. case x of PStr s \<Rightarrow> [sanitize_str s] | _ \<Rightarrow> []) xs)) - {[]}"
proof (induction xs arbitrary: ts)
  case Nil
  then show ?case by simp
next
  case (Cons x xs)
  show ?case
  proof (cases "truthy_atom x")
    case True
    with Cons.prems obtain s where x: "x = PStr s"
      by (cases x) (simp_all add: sanitize_def)
    with Cons.prems True obtain ts' where ts': "sanitize_each xs = Inr ts'" "ts = sanitize_str s # ts'"
      by (auto simp add: sanitize_PStr split: sum.splits)
    from Cons.IH [OF ts'(1)] ts'(2) x show ?thesis by auto
  next
    case False
    with Cons.prems have r: "sanitize_each xs = Inr ts" by simp
    from False have "(case x of PStr s \<Rightarrow> [sanitize_str s] | _ \<Rightarrow> []) = [] \<or> (case x of PStr s \<Rightarrow> [sanitize_str s] | _ \<Rightarrow> []) = [[]]"
      by (cases x) (simp_all add: sanitize_str_Nil)
    with Cons.IH [OF r] show ?thesis by auto
  qed
qed

lemma extract_loop_set:
  "extract_loop its tokens = Inr r \<Longrightarrow>
   set r - {[]} =
     (set tokens \<union> {t. \<exists>k v. (k, v) \<in> set its \<and> k \<notin> set skip_keys \<and> t \<in> set (value_tokens v)}) - {[]}"
proof (induction its arbitrary: tokens r)
  case Nil
  then show ?case by auto
next
  case (Cons kv rest)
  obtain k v where kv: "kv = (k, v)" by (cases kv)
  let ?R = "{t. \<exists>k v. (k, v) \<in> set rest \<and> k \<notin> set skip_keys \<and> t \<in> set (value_tokens v)}"
  have step: "set r - {[]} = (set tokens \<union> ?R) - {[]} \<union> (if k \<in> set skip_keys then {} else set (value_tokens v) - {[]})"
  proof (cases "k \<in> set skip_keys \<or> \<not> truthy v")
    case True
    with Cons.prems kv have r: "extract_loop rest tokens = Inr r" by simp
    have e: "k \<notin> set skip_keys \<Longrightarrow> set (value_tokens v) \<subseteq> {[]}"
    proof -
      assume "k \<notin> set skip_keys"
      with True have "\<not> truthy v" by simp
      then show ?thesis
        by (cases v rule: truthy.cases) (auto simp add: value_tokens_def sanitize_str_Nil split: pyatom.splits)
    qed
    from Cons.IH [OF r] e show ?thesis by auto
  next
    case False
    show ?thesis
    proof (cases v)
      case (Atom a)
      show ?thesis
      proof (cases a)
        case (PStr s)
        with Atom False Cons.prems kv have r: "extract_loop rest (set_add (sanitize_str s) tokens) = Inr r"
          by (simp add: sanitize_PStr)
        have "set (value_tokens v) = {sanitize_str s}"
          using Atom PStr by (simp add: value_tokens_def)
        with Cons.IH [OF r] show ?thesis using False by (auto simp add: set_set_add)
      next
        case PNone
        with Atom False show ?thesis by simp
      next
        case (PBool b)
        with Atom False Cons.prems kv have r: "extract_loop rest tokens = Inr r" by simp
        from Cons.IH [OF r] Atom PBool False show ?thesis
          by (auto simp add: value_tokens_def)
      next
        case (PInt i)
        with Atom False Cons.prems kv have r: "extract_loop rest tokens = Inr r" by simp
        from Cons.IH [OF r] Atom PInt False show ?thesis
          by (auto simp add: value_tokens_def)
      qed
    next
      case (PList xs)
      with False Cons.prems kv obtain ts where ts: "sanitize_each xs = Inr ts"
        and r: "extract_loop rest (set_update ts tokens) = Inr r"
        by (auto split: sum.splits)
      have "set (value_tokens v) - {[]} = set ts - {[]}"
        using sanitize_each_set [OF ts] PList by (simp add: value_tokens_def)
      with Cons.IH [OF r] show ?thesis using False by (auto simp add: set_set_update)
    qed
  qed
  show ?case unfolding step using kv by auto
qed

lemma in_items: "(k, v) \<in> set (items data) \<longleftrightarrow> map_of data k = Some v"
proof -
  have "map_of (AList.clearjunk data) k = Some v \<longleftrightarrow> (k, v) \<in> set (AList.clearjunk data)"
    by (rule map_of_eq_Some_iff) (rule distinct_clearjunk)
  then show ?thesis by (simp add: items_def map_of_clearjunk)
qed

lemma add_extra_words_set:
  "add_extra_words data tokens = Inr r \<Longrightarrow>
   set r - {[]} = (set tokens \<union> set (extra_tokens (get data ''extra_words''))) - {[]}"
proof (cases "truthy (get data ''extra_words'')")
  case False
  assume "add_extra_words data tokens = Inr r"
  with False have "r = tokens" by (simp add: add_extra_words_def)
  moreover from False have "set (extra_tokens (get data ''extra_words'')) \<subseteq> {[]}"
    by (cases "get data ''extra_words''" rule: truthy.cases)
       (auto simp add: extra_tokens_def split: pyatom.splits)
  ultimately show ?thesis by auto
next
  case True
  assume "add_extra_words data tokens = Inr r"
  with True obtain xs ts where xs: "iterate (get data ''extra_words'') = Inr xs"
    and ts: "sanitize_each xs = Inr ts" and r: "r = set_update ts tokens"
    by (auto simp add: add_extra_words_def split: sum.splits)
  have "set (extra_tokens (get data ''extra_words'')) =
        set (concat (map (\<lambda>x. case x of PStr s \<Rightarrow> [sanitize_str s] | _ \<Rightarrow> []) xs))"
    using xs by (cases "get data ''extra_words''" rule: iterate.cases)
      (auto simp add: extra_tokens_def)
  with sanitize_each_set [OF ts] r show ?thesis by (auto simp add: set_set_update)
qed

text \<open>
  C4, as the code has it. Token extraction produces, for every field with a truthy
  value whose key is outside the skip set (the six control fields and
  \<open>extra_words\<close>, \<open>important_years\<close>, \<open>apps\<close>), the sanitized value if it is a string
  or the sanitized elements if it is a list, and the sanitized elements of
  \<open>extra_words\<close>; empty results are dropped. The elements of \<open>important_years\<close> are
  not extracted.
\<close>

theorem extract_tokens_fields:
  assumes "extract_tokens env data = Inr tokens"
  shows "set tokens =
     {t. t \<noteq> [] \<and>
         ((\<exists>k v. map_of data k = Some v \<and> k \<notin> set skip_keys \<and> t \<in> set (value_tokens v)) \<or>
          t \<in> set (extra_tokens (get data ''extra_words'')))}"
proof -
  from assms obtain t1 t2 where t1: "extract_loop (items data) [] = Inr t1"
    and t2: "add_extra_words data t1 = Inr t2"
    and tokens: "tokens = filter (\<lambda>t. t \<noteq> []) (permute (tokens_order env) t2)"
    by (auto simp add: extract_tokens_def split: sum.splits)
  from tokens have "set tokens = set t2 - {[]}" by (auto simp add: set_permute)
  also have "\<dots> = (set t1 - {[]}) \<union> (set (extra_tokens (get data ''extra_words'')) - {[]})"
    using add_extra_words_set [OF t2] by auto
  also have "set t1 - {[]} = {t. \<exists>k v. (k, v) \<in> set (items data) \<and> k \<notin> set skip_keys \<and> t \<in> set (value_tokens v)} - {[]}"
    using extract_loop_set [OF t1] by simp
  finally show ?thesis by (auto simp add: in_items)
qed

theorem extract_tokens_fields_witness:
  "extract_tokens plain_orders with_extras = Inr [''abc'', ''rex'', ''blue''] \<and>
   set [''abc'', ''rex'', ''blue''] =
     {t. t \<noteq> [] \<and>
         ((\<exists>k v. map_of with_extras k = Some v \<and> k \<notin> set skip_keys \<and> t \<in> set (value_tokens v)) \<or>
          t \<in> set (extra_tokens (get with_extras ''extra_words'')))}"
proof -
  have h: "extract_tokens plain_orders with_extras = Inr [''abc'', ''rex'', ''blue'']"
    by code_simp
  from extract_tokens_fields [OF h] h show ?thesis by simp
qed

text \<open>
  C4, as stated, fails: \<open>important_years\<close> is not a control field and holds two
  non-empty strings, and no token is extracted.
\<close>

theorem important_years_not_extracted:
  "''important_years'' \<notin> set control_fields \<and>
   get years_only ''important_years'' = PList [PStr ''1990'', PStr ''2001''] \<and>
   sanitize (Atom (PStr ''1990'')) = Inr ''1990'' \<and>
   extract_tokens plain_orders years_only = Inr []"
  by code_simp

section \<open>The date of birth\<close>

lemma length_10: "length s = 10 \<Longrightarrow> \<exists>a b c d e f g h i j. s = [a, b, c, d, e, f, g, h, i, j]"
  by (simp add: numeral_eq_Suc length_Suc_conv) blast

lemma fullmatch_dob: "fullmatch dob_pattern s = dd_mm_yyyy s"
proof
  assume "fullmatch dob_pattern s"
  then show "dd_mm_yyyy s"
    by (auto simp add: fullmatch_def dob_pattern_def dd_mm_yyyy_def list_all2_Cons1)
next
  assume h: "dd_mm_yyyy s"
  then have "length s = 10" by (simp add: dd_mm_yyyy_def)
  from length_10 [OF this] obtain a b c d e f g h i j where s: "s = [a, b, c, d, e, f, g, h, i, j]"
    by blast
  from h show "fullmatch dob_pattern s" unfolding s
    by (simp add: fullmatch_def dob_pattern_def dd_mm_yyyy_def)
qed

lemma not_dd_mm_yyyy_Nil: "\<not> dd_mm_yyyy []"
  by (simp add: dd_mm_yyyy_def)

lemma parse_dob_fails_iff: "isl (parse_dob v) \<longleftrightarrow> \<not> (\<exists>s. v = Atom (PStr s) \<and> dd_mm_yyyy s)"
proof (cases v)
  case (PList xs)
  then show ?thesis by (simp add: parse_dob_def fullmatch_dob not_dd_mm_yyyy_Nil)
next
  case (Atom a)
  show ?thesis
  proof (cases a)
    case (PStr s)
    with Atom not_dd_mm_yyyy_Nil show ?thesis
      by (auto simp add: parse_dob_def fullmatch_dob Let_def)
  qed (simp_all add: Atom parse_dob_def fullmatch_dob not_dd_mm_yyyy_Nil)
qed

lemma sanitize_error: "sanitize v = Inl e \<Longrightarrow> e = TypeError"
  by (auto simp add: sanitize_def split: if_splits pyval.splits pyatom.splits)

lemma sanitize_each_error: "sanitize_each xs = Inl e \<Longrightarrow> e = TypeError"
  by (induction xs) (auto split: if_splits sum.splits dest: sanitize_error)

lemma iterate_error: "iterate v = Inl e \<Longrightarrow> e = TypeError"
  by (cases v rule: iterate.cases) simp_all

lemma extract_loop_error: "extract_loop its tokens = Inl e \<Longrightarrow> e = TypeError"
proof (induction its arbitrary: tokens)
  case Nil
  then show ?case by simp
next
  case (Cons kv rest)
  obtain k v where kv: "kv = (k, v)" by (cases kv)
  from Cons.prems show ?case unfolding kv
    by (auto split: if_splits sum.splits pyval.splits pyatom.splits
        dest: sanitize_error sanitize_each_error Cons.IH)
qed

lemma extract_tokens_error: "extract_tokens env data = Inl e \<Longrightarrow> e = TypeError"
  by (auto simp add: extract_tokens_def add_extra_words_def
      split: sum.splits if_splits dest: extract_loop_error iterate_error sanitize_each_error)

lemma get_years_error: "get_years env data = Inl e \<Longrightarrow> e = TypeError"
  by (auto simp add: get_years_def Let_def split: sum.splits if_splits dest: iterate_error)

lemma collect_numbers_error: "collect_numbers env data = Inl e \<Longrightarrow> e = TypeError"
  by (auto simp add: collect_numbers_def split: sum.splits if_splits
      dest: get_years_error sanitize_error)

lemma try_parse_dob_year:
  assumes "try_parse_dob data = Some p"
  shows "yyyy p \<noteq> [] \<and> list_all is_digit (yyyy p)"
proof -
  from assms obtain s where s: "get data ''dob'' = Atom (PStr s)" and m: "fullmatch dob_pattern s"
    and p: "yyyy p = drop 6 s"
    by (auto simp add: try_parse_dob_def parse_dob_def Let_def
        split: if_splits sum.splits pyval.splits pyatom.splits)
  from m have "dd_mm_yyyy s" by (simp add: fullmatch_dob)
  then show ?thesis unfolding p by (auto simp add: dd_mm_yyyy_def)
qed

lemma seed_dates_total: "\<exists>c'. seed_dates min_len max_len name (try_parse_dob data) c = Inr c'"
proof (cases "try_parse_dob data")
  case None
  then show ?thesis by (simp add: seed_dates_def)
next
  case (Some p)
  from try_parse_dob_year [OF Some] have "\<exists>n. py_int (yyyy p) = Inr n"
    by (simp add: py_int_def)
  then show ?thesis using Some by (auto simp add: seed_dates_def date_variants_def Let_def)
qed

lemma seed_lucky_error: "seed_lucky min_len max_len name data c = Inl e \<Longrightarrow> e = TypeError"
  by (auto simp add: seed_lucky_def split: sum.splits if_splits dest: sanitize_error)

lemma stages_error: "stages env data min_len max_len sp up tokens = Inl e \<Longrightarrow> e = TypeError"
  using seed_dates_total [of min_len max_len _ data "[]"]
  by (auto simp add: stages_def get_name_def split: sum.splits
      dest: collect_numbers_error sanitize_error seed_lucky_error) (metis sum.distinct(1) Inl_Inr_False)

lemma generate_realistic_error:
  "generate_realistic env data count min_len max_len sp up = Inl e \<Longrightarrow> e = TypeError"
  by (auto simp add: generate_realistic_def accumulate_def split: sum.splits if_splits
      dest: extract_tokens_error stages_error)

lemma map_of_rename_other:
  "k \<noteq> old \<Longrightarrow> k \<noteq> new \<Longrightarrow> map_of (rename_key old new data) k = map_of data k"
  by (induction data) (auto simp add: rename_key_def)

lemma map_of_rename_old:
  "old \<noteq> new \<Longrightarrow> map_of (rename_key old new data) old = None"
  by (induction data) (auto simp add: rename_key_def split: if_splits)

lemma get_rename_other: "k \<noteq> old \<Longrightarrow> k \<noteq> new \<Longrightarrow> get (rename_key old new data) k = get data k"
  by (simp add: get_def map_of_rename_other)

lemma get_rename_old: "old \<noteq> new \<Longrightarrow> get (rename_key old new data) old = Atom PNone"
  by (simp add: get_def map_of_rename_old)

lemma delete_rename:
  "new \<notin> fst ` set data \<Longrightarrow> new \<noteq> k \<Longrightarrow>
   AList.delete (if k = old then new else k) (rename_key old new data) =
   rename_key old new (AList.delete k data)"
  by (induction data) (auto simp add: rename_key_def AList.delete_eq split: if_splits)

lemma clearjunk_rename:
  "new \<notin> fst ` set data \<Longrightarrow>
   AList.clearjunk (rename_key old new data) = rename_key old new (AList.clearjunk data)"
proof (induction data rule: AList.clearjunk.induct)
  case 1
  then show ?case by (simp add: rename_key_def)
next
  case (2 p ps)
  obtain k v where p: "p = (k, v)" by (cases p)
  from "2.prems" p have n: "new \<notin> fst ` set ps" "new \<noteq> k" by auto
  then have "new \<notin> fst ` set (AList.delete (fst p) ps)" by (auto simp add: AList.delete_eq)
  from "2.IH" [OF this] delete_rename [OF n, of old] show ?case
    by (simp add: p rename_key_def)
qed

lemma items_rename:
  "new \<notin> fst ` set data \<Longrightarrow> items (rename_key old new data) = rename_key old new (items data)"
  by (simp add: items_def clearjunk_rename)

lemma extract_loop_rename:
  "old \<notin> set skip_keys \<Longrightarrow> new \<notin> set skip_keys \<Longrightarrow>
   extract_loop (rename_key old new its) tokens = extract_loop its tokens"
proof (induction its arbitrary: tokens)
  case Nil
  then show ?case by (simp add: rename_key_def)
next
  case (Cons kv rest)
  obtain k v where kv: "kv = (k, v)" by (cases kv)
  have r: "rename_key old new ((k, v) # rest) = (if k = old then new else k, v) # rename_key old new rest"
    by (simp add: rename_key_def)
  have s: "(if k = old then new else k) \<in> set skip_keys \<longleftrightarrow> k \<in> set skip_keys"
    using Cons.prems by auto
  show ?case unfolding kv r extract_loop.simps s
    by (simp add: Cons.IH [OF Cons.prems] cong: if_cong sum.case_cong pyval.case_cong pyatom.case_cong)
qed

lemma malformed_try_parse: "isl (parse_dob (get data ''dob'')) \<Longrightarrow> try_parse_dob data = None"
  by (auto simp add: try_parse_dob_def split: sum.splits)

lemma rename_dob_generate:
  assumes malformed: "isl (parse_dob (get data ''dob''))"
    and fresh: "new \<notin> fst ` set data" "new \<notin> set skip_keys" "new \<notin> set read_keys"
  shows "generate_realistic env (rename_key ''dob'' new data) count min_len max_len sp up =
         generate_realistic env data count min_len max_len sp up"
proof -
  let ?data' = "rename_key ''dob'' new data"
  have g: "get ?data' k = get data k" if "k \<in> set read_keys" "k \<noteq> ''dob''" for k
    using that fresh(3) by (intro get_rename_other) auto
  have ne: "''dob'' \<noteq> new" using fresh(3) by (auto simp add: read_keys_def)
  have d: "get ?data' ''dob'' = Atom PNone" using ne by (rule get_rename_old)
  have t': "try_parse_dob ?data' = None" by (simp add: try_parse_dob_def d)
  have t: "try_parse_dob data = None" using malformed by (rule malformed_try_parse)
  have ex: "get ?data' ''extra_words'' = get data ''extra_words''"
    and iy: "get ?data' ''important_years'' = get data ''important_years''"
    and ln: "get ?data' ''lucky_number'' = get data ''lucky_number''"
    and ph: "get ?data' ''phone'' = get data ''phone''"
    and fn: "get ?data' ''full_name'' = get data ''full_name''"
    and nn: "get ?data' ''nickname'' = get data ''nickname''"
    by (simp_all add: g read_keys_def)
  have nd: "''dob'' \<notin> set skip_keys" by (simp add: skip_keys_def)
  have extra: "add_extra_words ?data' ts = add_extra_words data ts" for ts
    by (simp add: add_extra_words_def ex)
  have tokens: "extract_tokens env ?data' = extract_tokens env data"
    by (simp add: extract_tokens_def items_rename [OF fresh(1)]
        extract_loop_rename [OF nd fresh(2)] extra cong: sum.case_cong)
  have years: "get_years env ?data' = get_years env data"
    by (simp add: get_years_def t t' iy cong: sum.case_cong if_cong)
  have numbers: "collect_numbers env ?data' = collect_numbers env data"
    by (simp add: collect_numbers_def years ln ph cong: sum.case_cong if_cong)
  have name: "get_name ?data' = get_name data"
    by (simp add: get_name_def fn nn)
  have lucky: "seed_lucky min_len max_len n ?data' c = seed_lucky min_len max_len n data c" for n c
    by (simp add: seed_lucky_def ln)
  have "stages env ?data' min_len max_len sp up tokens = stages env data min_len max_len sp up tokens"
    for tokens
    by (simp add: stages_def numbers name lucky t t' cong: sum.case_cong)
  then show ?thesis
    by (simp add: generate_realistic_def accumulate_def tokens cong: sum.case_cong if_cong)
qed

lemma generate_malformed:
  "generate_realistic mixed_orders malformed_dob 5 13 13 False False =
     Inr [''1990-06-15abc--EDU'', ''abc1990-06-15--EDU'', ''1990-06-1548c--EDU'']"
  by code_simp

text \<open>
  C9. \<open>parse_dob\<close> fails exactly when its argument is not a string of the shape
  DD/MM/YYYY. Inside \<open>generate_realistic\<close> the failure is swallowed: the generator
  never returns the \<open>ValueError\<close> of \<open>parse_dob\<close>, and for a malformed \<open>dob\<close> there are
  no parts and the result is the one for the record in which the value sits under a
  key the generator does not know, so that it is a plain token and nothing else.
\<close>

theorem parse_dob_failure_swallowed:
  "(isl (parse_dob v) \<longleftrightarrow> \<not> (\<exists>s. v = Atom (PStr s) \<and> dd_mm_yyyy s)) \<and>
   generate_realistic env data count min_len max_len include_specials include_uppercase
     \<noteq> Inl ValueError \<and>
   (isl (parse_dob (get data ''dob'')) \<longrightarrow> new \<notin> fst ` set data \<longrightarrow>
    new \<notin> set skip_keys \<longrightarrow> new \<notin> set read_keys \<longrightarrow>
      try_parse_dob data = None \<and>
      generate_realistic env data count min_len max_len include_specials include_uppercase =
      generate_realistic env (rename_key ''dob'' new data) count min_len max_len
        include_specials include_uppercase)"
proof (intro conjI impI)
  show "isl (parse_dob v) \<longleftrightarrow> \<not> (\<exists>s. v = Atom (PStr s) \<and> dd_mm_yyyy s)"
    by (rule parse_dob_fails_iff)
  show "generate_realistic env data count min_len max_len include_specials include_uppercase
     \<noteq> Inl ValueError"
    using generate_realistic_error by fastforce
next
  assume "isl (parse_dob (get data ''dob''))"
  then show "try_parse_dob data = None" by (rule malformed_try_parse)
next
  assume "isl (parse_dob (get data ''dob''))" "new \<notin> fst ` set data"
    "new \<notin> set skip_keys" "new \<notin> set read_keys"
  then show "generate_realistic env data count min_len max_len include_specials include_uppercase =
      generate_realistic env (rename_key ''dob'' new data) count min_len max_len
        include_specials include_uppercase"
    by (simp add: rename_dob_generate)
qed

theorem parse_dob_failure_swallowed_witness:
  "isl (parse_dob (get malformed_dob ''dob'')) \<and> ''note'' \<notin> fst ` set malformed_dob \<and>
   ''note'' \<notin> set skip_keys \<and> ''note'' \<notin> set read_keys \<and>
   try_parse_dob malformed_dob = None \<and>
   generate_realistic mixed_orders malformed_dob 5 13 13 False False =
     Inr [''1990-06-15abc--EDU'', ''abc1990-06-15--EDU'', ''1990-06-1548c--EDU''] \<and>
   generate_realistic mixed_orders (rename_key ''dob'' ''note'' malformed_dob) 5 13 13 False False =
     Inr [''1990-06-15abc--EDU'', ''abc1990-06-15--EDU'', ''1990-06-1548c--EDU'']"
proof -
  have h: "isl (parse_dob (get malformed_dob ''dob'')) \<and> ''note'' \<notin> fst ` set malformed_dob \<and>
     ''note'' \<notin> set skip_keys \<and> ''note'' \<notin> set read_keys"
    by code_simp
  from parse_dob_failure_swallowed [where data = malformed_dob and new = "''note''"
      and env = mixed_orders and count = 5 and min_len = 13 and max_len = 13
      and include_specials = False and include_uppercase = False] h generate_malformed
  show ?thesis by simp
qed

section \<open>The John Smith example\<close>

lemma add_all_prefix: "\<exists>ext. add_all min_len max_len ws c = c @ ext"
proof (induction ws arbitrary: c)
  case Nil
  then show ?case by (simp add: add_all_def)
next
  case (Cons w ws)
  have "\<exists>e1. add min_len max_len w c = c @ e1"
    by (simp add: add_def set_add_def)
  then obtain e1 where e1: "add min_len max_len w c = c @ e1" ..
  from Cons [of "c @ e1"] obtain e2 where "add_all min_len max_len ws (c @ e1) = (c @ e1) @ e2"
    by blast
  with e1 show ?case by (simp add: add_all_def)
qed

lemma stage_prefix: "\<exists>ext. stage min_len max_len key cap f c = c @ ext"
  by (simp add: stage_def add_all_prefix)

lemma set_add_all:
  "set (add_all min_len max_len ws c) =
   set c \<union> (\<lambda>w. w @ WATERMARK) ` {w \<in> set ws. admissible min_len max_len w}"
  unfolding add_all_def
  by (induction ws arbitrary: c) (auto simp add: add_def set_set_add admissible_def)

lemma stage_member:
  "w \<in> set (take cap (permute key c)) \<Longrightarrow> v \<in> set (f (drop_last_n (length WATERMARK) w)) \<Longrightarrow>
   admissible min_len max_len v \<Longrightarrow> v @ WATERMARK \<in> set (stage min_len max_len key cap f c)"
  by (auto simp add: stage_def set_add_all)

lemma stage_mono: "set c \<subseteq> set (stage min_len max_len key cap f c)"
  by (auto simp add: stage_def set_add_all)

lemma pairwise_mono: "set c \<subseteq> set (pairwise min_len max_len tokens c)"
  by (auto simp add: pairwise_def set_add_all)

lemma stage_monoD: "x \<in> set c \<Longrightarrow> x \<in> set (stage min_len max_len key cap f c)"
  using stage_mono by blast

lemma transforms_mono: "set c \<subseteq> set (transforms env min_len max_len sp up numbers c)"
  by (auto simp add: transforms_def Let_def intro!: stage_monoD)

lemma fallback_loop_mono: "set c \<subseteq> set (fst (fallback_loop min_len max_len r ps c))"
  by (simp add: fallback_loop_take set_add_all)

lemma fallback_mono: "set c \<subseteq> set (fst (fallback env count min_len max_len tokens c))"
  by (simp add: fallback_def Let_def fallback_loop_mono)

lemma seed_john: "seed_dates 6 16 ''johnsmith'' (try_parse_dob john_smith) [] = Inr name_date_seeds"
  by code_simp

lemma case_john:
  "stage 6 16 [] 300 (\<lambda>b. case_variants b True)
     (pairwise 6 16 [''15/06/1990'', ''johnsmith'', ''rex''] name_date_seeds) =
   map (\<lambda>b. b @ WATERMARK) case_bases"
  by code_simp

lemma john_name: "get_name john_smith = Inr ''johnsmith''"
  by code_simp

lemma john_lucky: "get john_smith ''lucky_number'' = Atom PNone"
  by code_simp

lemma seeds_prefix: "take 8 case_bases = map (drop_last_n 5) name_date_seeds \<and> length case_bases = 49"
  by code_simp

lemma insert_inj:
  assumes n: "sp \<notin> set b" "sp \<notin> set b'" "sp' \<notin> set b" "sp' \<notin> set b'"
    "sp \<notin> set WATERMARK" "sp' \<notin> set WATERMARK"
    and i: "i < length b" "i' < length b'"
    and eq: "take i b @ sp # drop i b @ WATERMARK = take i' b' @ sp' # drop i' b' @ WATERMARK"
  shows "b = b' \<and> sp = sp' \<and> i = i'"
proof -
  have "sp \<in> set (take i b @ sp # drop i b @ WATERMARK)" by simp
  then have "sp \<in> set (take i' b' @ sp' # drop i' b' @ WATERMARK)" by (simp only: eq)
  then have s: "sp = sp'" using n by (auto dest: in_set_takeD in_set_dropD)
  have n1: "sp \<notin> set (take i b)" using n(1) by (auto dest: in_set_takeD)
  have n2: "sp \<notin> set (drop i b @ WATERMARK)" using n(1,5) by (auto dest: in_set_dropD)
  from eq s have "take i b @ sp # (drop i b @ WATERMARK) = take i' b' @ sp # (drop i' b' @ WATERMARK)"
    by simp
  with append_Cons_eq_iff [OF n1 n2] have t: "take i b = take i' b'"
    and d: "drop i b @ WATERMARK = drop i' b' @ WATERMARK" by blast+
  from d have d': "drop i b = drop i' b'" by simp
  have "b = take i b @ drop i b" by simp
  also have "\<dots> = take i' b' @ drop i' b'" by (simp only: t d')
  finally have b: "b = b'" by simp
  have "i = length (take i b)" using i(1) by simp
  also have "\<dots> = length (take i' b')" by (simp only: t)
  also have "\<dots> = i'" using i(2) by simp
  finally show ?thesis using b s by simp
qed

lemma john_extra: "get john_smith ''important_years'' = Atom PNone \<and> get john_smith ''phone'' = Atom PNone"
  by code_simp

lemma john_dob: "try_parse_dob john_smith = Some \<lparr>dd = ''15'', mm = ''06'', yyyy = ''1990'', full = ''15061990''\<rparr>"
  by code_simp

lemma john_loop: "extract_loop (items john_smith) [] = Inr [''15/06/1990'', ''johnsmith''] \<and>
  add_extra_words john_smith [''15/06/1990'', ''johnsmith''] = Inr [''15/06/1990'', ''johnsmith'', ''rex'']"
  by code_simp

lemma john_seed_lucky: "seed_lucky min_len max_len name john_smith c = Inr c"
  by (simp add: seed_lucky_def john_lucky)

lemma john_tokens_any:
  "\<exists>tokens. extract_tokens env john_smith = Inr tokens \<and> tokens \<noteq> []"
proof -
  let ?t = "filter (\<lambda>t. t \<noteq> []) (permute (tokens_order env) [''15/06/1990'', ''johnsmith'', ''rex''])"
  have "extract_tokens env john_smith = Inr ?t"
    using john_loop by (simp add: extract_tokens_def)
  moreover have "''rex'' \<in> set ?t" by (simp add: set_permute)
  then have "0 < length ?t" by (rule length_pos_if_in_set)
  then have "?t \<noteq> []" by simp
  ultimately show ?thesis by blast
qed

lemma john_numbers_any: "\<exists>ns. collect_numbers env john_smith = Inr ns"
  by (simp add: collect_numbers_def get_years_def john_dob john_extra john_lucky Let_def)

lemma rex_ok:
  "distinct rex_bases \<and>
   list_all (\<lambda>b. b \<in> set case_bases \<and> 13 \<le> length b \<and> length b \<le> 14 \<and>
               set marks \<inter> set b = {} \<and> \<not> mentions_name b \<and>
               (last b = CHR ''x'' \<or> last b = CHR ''X'')) rex_bases"
  by code_simp

lemma rex_sum: "sum_list (map (\<lambda>b. 3 * (length b - 1)) rex_bases) = 342"
  by code_simp

lemma marks_ok:
  "distinct marks \<and> length marks = 3 \<and> set marks \<inter> set WATERMARK = {} \<and>
   list_all (\<lambda>sp. [sp] \<in> set [''!'', ''@'', ''1'', ''2'']) marks \<and>
   \<not> mentions_name marks \<and> \<not> mentions_name WATERMARK"
  by code_simp

lemma rex_facts:
  assumes "b \<in> set rex_bases"
  shows "b \<in> set case_bases" "13 \<le> length b" "length b \<le> 14" "set marks \<inter> set b = {}"
    "\<not> mentions_name b" "last b = CHR ''x'' \<or> last b = CHR ''X''"
  using rex_ok assms by (simp_all add: list_all_iff)

lemma mark_facts:
  assumes "sp \<in> set marks"
  shows "sp \<notin> set WATERMARK" "[sp] \<in> set [''!'', ''@'', ''1'', ''2'']"
    "sp \<noteq> CHR ''j''" "sp \<noteq> CHR ''J''"
proof -
  from marks_ok assms show "sp \<notin> set WATERMARK" by blast
  from marks_ok assms show "[sp] \<in> set [''!'', ''@'', ''1'', ''2'']" by (simp add: list_all_iff)
  from marks_ok assms show "sp \<noteq> CHR ''j''" "sp \<noteq> CHR ''J''"
    by (auto simp add: mentions_name_def)
qed

lemma blacklist_short: "w \<in> set COMMON_BLACKLIST \<Longrightarrow> length w \<le> 10"
  by (auto simp add: COMMON_BLACKLIST_def)

lemma insert_special_mark:
  assumes "1 \<le> i" "i < length b" "[sp] \<in> set [''!'', ''@'', ''1'', ''2'']"
  shows "take i b @ sp # drop i b \<in> set (insert_special b True)"
proof -
  from assms(1,2) have "\<not> length b < 2" by simp
  moreover have "i \<in> set [1..<length b]" using assms(1,2) by simp
  ultimately show ?thesis using assms(3)
    by (auto simp add: insert_special_def)
qed

lemma rex_specials:
  assumes b: "b \<in> set rex_bases" and i: "1 \<le> i" "i < length b"
    and sp: "sp \<in> set marks"
    and w: "b @ WATERMARK \<in> set (take 400 (permute key c))"
  shows "take i b @ sp # drop i b @ WATERMARK \<in>
         set (stage 6 16 key 400 (\<lambda>b. append_specials b True @ insert_special b True) c)"
proof -
  let ?v = "take i b @ sp # drop i b"
  have m: "?v \<in> set ((\<lambda>b. append_specials b True @ insert_special b True)
                  (drop_last_n (length WATERMARK) (b @ WATERMARK)))"
    using insert_special_mark [OF i mark_facts(2) [OF sp]] by (simp add: drop_last_n_def)
  have len: "length ?v = length b + 1" using i by simp
  then have "?v \<notin> set COMMON_BLACKLIST" using blacklist_short [of ?v] rex_facts(2) [OF b] by auto
  then have a: "admissible 6 16 ?v"
    using rex_facts(2,3) [OF b] len by (simp add: admissible_def)
  from stage_member [where f = "\<lambda>b. append_specials b True @ insert_special b True", OF w m a]
  show ?thesis by simp
qed

lemma rex_insertions_card:
  "card ((\<lambda>(b, sp, i). take i b @ sp # drop i b @ WATERMARK) `
          (SIGMA b:set rex_bases. set marks \<times> {1..<length b})) = 342"
proof -
  let ?I = "SIGMA b:set rex_bases. set marks \<times> {1..<length b}"
  let ?ins = "\<lambda>(b, sp, i). take i b @ sp # drop i b @ WATERMARK"
  have inj: "inj_on ?ins ?I"
  proof (rule inj_onI)
    fix x y assume x: "x \<in> ?I" and y: "y \<in> ?I" and eq: "?ins x = ?ins y"
    obtain b sp i where x': "x = (b, sp, i)" by (cases x)
    obtain b' sp' i' where y': "y = (b', sp', i')" by (cases y)
    from x x' have xb: "b \<in> set rex_bases" "sp \<in> set marks" "i < length b" by auto
    from y y' have yb: "b' \<in> set rex_bases" "sp' \<in> set marks" "i' < length b'" by auto
    have w: "sp \<notin> set WATERMARK" "sp' \<notin> set WATERMARK"
      using mark_facts(1) [OF xb(2)] mark_facts(1) [OF yb(2)] by simp_all
    have n: "sp \<notin> set b" "sp \<notin> set b'" "sp' \<notin> set b" "sp' \<notin> set b'"
      using rex_facts(4) [OF xb(1)] rex_facts(4) [OF yb(1)] xb(2) yb(2) by auto
    from eq have "take i b @ sp # drop i b @ WATERMARK = take i' b' @ sp' # drop i' b' @ WATERMARK"
      by (simp add: x' y')
    from insert_inj [OF n w xb(3) yb(3) this] show "x = y" by (simp add: x' y')
  qed
  have c3: "card (set marks) = 3" using marks_ok by (simp add: distinct_card)
  have "card (?ins ` ?I) = card ?I" using inj by (rule card_image)
  also have "\<dots> = (\<Sum>b\<in>set rex_bases. card (set marks \<times> {1..<length b}))"
    by (rule card_SigmaI) auto
  also have "\<dots> = (\<Sum>b\<in>set rex_bases. 3 * (length b - 1))"
    by (rule sum.cong) (simp_all add: card_cartesian_product c3)
  also have "\<dots> = sum_list (map (\<lambda>b. 3 * (length b - 1)) rex_bases)"
    using rex_ok by (simp add: sum.distinct_set_conv_list)
  finally show ?thesis by (simp only: rex_sum)
qed

lemma wf_c2: "well_formed 6 16 john_c2"
proof -
  have "well_formed 6 16 name_date_seeds"
    using well_formed_Nil seed_john by (rule well_formed_seed_dates)
  then have "well_formed 6 16 (pairwise 6 16 [''15/06/1990'', ''johnsmith'', ''rex''] name_date_seeds)"
    by (rule well_formed_pairwise)
  then have "well_formed 6 16 (stage 6 16 [] 300 (\<lambda>b. case_variants b True)
     (pairwise 6 16 [''15/06/1990'', ''johnsmith'', ''rex''] name_date_seeds))"
    by (rule well_formed_stage)
  then show ?thesis by (simp only: case_john john_c2_def)
qed

lemma wf_c4: "well_formed 6 16 john_c4"
  unfolding john_c4_def john_c3_def
  by (intro well_formed_stage wf_c2)

lemma rex_family_card: "finite rex_family \<and> card rex_family = 342"
proof -
  have "finite rex_family" unfolding rex_family_def by (intro finite_imageI finite_SigmaI) auto
  then show ?thesis using rex_insertions_card by (simp add: rex_family_def)
qed

lemma rex_familyE:
  assumes "w \<in> rex_family"
  obtains b sp i where "b \<in> set rex_bases" "sp \<in> set marks" "1 \<le> i" "i < length b"
    "w = take i b @ sp # drop i b @ WATERMARK"
proof -
  from assms obtain t where t: "t \<in> (SIGMA b:set rex_bases. set marks \<times> {1..<length b})"
    and w: "w = (\<lambda>(b, sp, i). take i b @ sp # drop i b @ WATERMARK) t"
    unfolding rex_family_def by blast
  obtain b sp i where t': "t = (b, sp, i)" by (cases t)
  from t t' have "b \<in> set rex_bases" "sp \<in> set marks" "1 \<le> i" "i < length b" by auto
  moreover from w t' have "w = take i b @ sp # drop i b @ WATERMARK" by simp
  ultimately show ?thesis by (rule that)
qed

lemma rex_family_props:
  assumes "w \<in> rex_family"
  shows "\<exists>v. w = v @ WATERMARK \<and> 14 \<le> length v \<and> length v \<le> 15 \<and> \<not> mentions_name v \<and>
             v \<noteq> [] \<and> (last v = CHR ''x'' \<or> last v = CHR ''X'')"
proof -
  from assms obtain b sp i where b: "b \<in> set rex_bases" and sp: "sp \<in> set marks"
    and i: "1 \<le> i" "i < length b" and w: "w = take i b @ sp # drop i b @ WATERMARK"
    by (rule rex_familyE)
  let ?v = "take i b @ sp # drop i b"
  have d: "drop i b \<noteq> []" using i(2) by simp
  have l: "length ?v = length b + 1" using i(2) by simp
  have s: "set ?v = insert sp (set b)"
  proof -
    have "set (take i b) \<union> set (drop i b) = set b"
      by (metis append_take_drop_id set_append)
    then show ?thesis by simp
  qed
  have "last ?v = last (drop i b)" using d by simp
  also have "\<dots> = last b" using i(2) by simp
  finally have la: "last ?v = last b" .
  have m: "\<not> mentions_name ?v"
    using rex_facts(5) [OF b] mark_facts(3,4) [OF sp] unfolding mentions_name_def s by simp
  have "w = ?v @ WATERMARK" using w by simp
  moreover have "14 \<le> length ?v" "length ?v \<le> 15" using l rex_facts(2,3) [OF b] by simp_all
  moreover have "?v \<noteq> []" by simp
  moreover have "last ?v = CHR ''x'' \<or> last ?v = CHR ''X''" using la rex_facts(6) [OF b] by simp
  ultimately show ?thesis using m by blast
qed

lemma rex_family_in_c4: "rex_family \<subseteq> set john_c4"
proof
  fix w assume "w \<in> rex_family"
  then obtain b sp i where b: "b \<in> set rex_bases" and sp: "sp \<in> set marks"
    and i: "1 \<le> i" "i < length b" and w: "w = take i b @ sp # drop i b @ WATERMARK"
    by (rule rex_familyE)
  from stage_prefix [of 6 16 "[]" 200 leet_variants john_c2]
  obtain e3 where e3: "john_c3 = john_c2 @ e3" unfolding john_c3_def ..
  have len: "length john_c2 \<le> 400" using seeds_prefix by (simp add: john_c2_def)
  have "b @ WATERMARK \<in> set john_c2" using rex_facts(1) [OF b] by (simp add: john_c2_def)
  moreover have "take 400 (john_c2 @ e3) = john_c2 @ take (400 - length john_c2) e3"
    using len by simp
  ultimately have "b @ WATERMARK \<in> set (take 400 (john_c2 @ e3))" by simp
  then have "b @ WATERMARK \<in> set (take 400 (permute [] john_c3))" by (simp only: permute.simps e3)
  from rex_specials [OF b i sp this] show "w \<in> set john_c4" by (simp only: w john_c4_def)
qed

lemma count_list_partition:
  "count_list (filter P xs @ filter (\<lambda>x. \<not> P x) xs) x = count_list xs x"
  by (induction xs) auto

lemma permute_front: "\<exists>ks. permute ks xs = filter P xs @ filter (\<lambda>x. \<not> P x) xs"
  by (rule permute_complete) (rule count_list_partition)

lemma filter_family:
  assumes "distinct xs" "F \<subseteq> set xs"
  shows "set (filter (\<lambda>w. w \<in> F) xs) = F" "length (filter (\<lambda>w. w \<in> F) xs) = card F"
proof -
  show s: "set (filter (\<lambda>w. w \<in> F) xs) = F" using assms(2) by auto
  have "distinct (filter (\<lambda>w. w \<in> F) xs)" using assms(1) by simp
  then have "card (set (filter (\<lambda>w. w \<in> F) xs)) = length (filter (\<lambda>w. w \<in> F) xs)"
    by (rule distinct_card)
  then show "length (filter (\<lambda>w. w \<in> F) xs) = card F" by (simp only: s)
qed

lemma distinct_c4: "distinct john_c4"
  using wf_c4 by (simp add: well_formed_def)

lemma rex_first_props:
  "length rex_first = 300" "distinct rex_first" "set rex_first \<subseteq> rex_family"
proof -
  let ?A = "filter (\<lambda>w. w \<in> rex_family) john_c4"
  from filter_family [OF distinct_c4 rex_family_in_c4] rex_family_card
  have l: "length ?A = 342" and s: "set ?A = rex_family" by simp_all
  show "length rex_first = 300" using l by (simp add: rex_first_def)
  show "distinct rex_first" using distinct_c4 by (simp add: rex_first_def)
  show "set rex_first \<subseteq> rex_family"
    using s set_take_subset [of 300 ?A] by (simp only: rex_first_def)
qed

lemma numeric_key: "\<exists>k. take 300 (permute k john_c4) = rex_first"
proof -
  let ?A = "filter (\<lambda>w. w \<in> rex_family) john_c4"
  from permute_front [of john_c4 "\<lambda>w. w \<in> rex_family"]
  obtain k where k: "permute k john_c4 = ?A @ filter (\<lambda>w. w \<notin> rex_family) john_c4" ..
  from filter_family [OF distinct_c4 rex_family_in_c4] rex_family_card
  have "300 \<le> length ?A" by simp
  then have "take 300 (permute k john_c4) = take 300 ?A" by (simp add: k)
  then show ?thesis unfolding rex_first_def ..
qed

lemma unmark_marked: "drop_last_n (length WATERMARK) (v @ WATERMARK) = v"
  by (simp add: drop_last_n_def)

lemma digit_suffix:
  assumes "n \<in> set ''123''"
  shows "v @ [n] \<in> set (numeric_suffixes v ns)"
proof -
  from assms have "[n] \<in> set (ns @ [''1'', ''2'', ''3'', ''123'', ''007'', ''69'', ''420'', ''12'', ''21''])"
    by auto
  then show ?thesis unfolding numeric_suffixes_def by auto
qed

lemma digit_familyE:
  assumes "x \<in> digit_family"
  obtains v n where "v @ WATERMARK \<in> set rex_first" "n \<in> set ''123''" "x = v @ n # WATERMARK"
    "14 \<le> length v" "length v \<le> 15" "\<not> mentions_name v"
proof -
  from assms obtain t where t: "t \<in> set rex_first \<times> set ''123''"
    and x: "x = (\<lambda>(w, n). drop_last_n (length WATERMARK) w @ n # WATERMARK) t"
    unfolding digit_family_def by blast
  obtain w n where t': "t = (w, n)" by (cases t)
  from t t' have w: "w \<in> set rex_first" and n: "n \<in> set ''123''" by auto
  from w rex_first_props(3) have "w \<in> rex_family" by blast
  from rex_family_props [OF this] obtain v where v: "w = v @ WATERMARK" "14 \<le> length v"
    "length v \<le> 15" "\<not> mentions_name v" by blast
  have "x = v @ n # WATERMARK" using x t' v(1) by (simp add: unmark_marked)
  with w n v show ?thesis using that by blast
qed

lemma digit_family_in_c5:
  assumes "take 300 (permute k john_c4) = rex_first"
  shows "digit_family \<subseteq> set (john_c5 k ns)"
proof
  fix x assume "x \<in> digit_family"
  then obtain v n where w: "v @ WATERMARK \<in> set rex_first" and n: "n \<in> set ''123''"
    and x: "x = v @ n # WATERMARK" and l: "14 \<le> length v" "length v \<le> 15"
    by (rule digit_familyE)
  have w': "v @ WATERMARK \<in> set (take 300 (permute k john_c4))" using w by (simp only: assms)
  have m: "v @ [n] \<in> set ((\<lambda>b. numeric_suffixes b ns) (drop_last_n (length WATERMARK) (v @ WATERMARK)))"
    using digit_suffix [OF n] by (simp only: unmark_marked)
  have "v @ [n] \<notin> set COMMON_BLACKLIST" using blacklist_short [of "v @ [n]"] l by auto
  then have a: "admissible 6 16 (v @ [n])" using l by (simp add: admissible_def)
  from stage_member [where f = "\<lambda>b. numeric_suffixes b ns", OF w' m a]
  show "x \<in> set (john_c5 k ns)" by (simp add: x john_c5_def)
qed

lemma digit_family_card: "finite digit_family \<and> card digit_family = 900"
proof -
  let ?f = "\<lambda>(w, n). drop_last_n (length WATERMARK) w @ n # WATERMARK"
  let ?D = "set rex_first \<times> set ''123''"
  have inj: "inj_on ?f ?D"
  proof (rule inj_onI)
    fix s t assume s: "s \<in> ?D" and t: "t \<in> ?D" and eq: "?f s = ?f t"
    obtain w n where s': "s = (w, n)" by (cases s)
    obtain w' n' where t': "t = (w', n')" by (cases t)
    from s s' rex_first_props(3) have "w \<in> rex_family" by auto
    from rex_family_props [OF this] obtain v where v: "w = v @ WATERMARK" by blast
    from t t' rex_first_props(3) have "w' \<in> rex_family" by auto
    from rex_family_props [OF this] obtain v' where v': "w' = v' @ WATERMARK" by blast
    from eq have "(v @ [n]) @ WATERMARK = (v' @ [n']) @ WATERMARK"
      by (simp add: s' t' v v' unmark_marked)
    then have "v @ [n] = v' @ [n']" by (simp only: append_same_eq)
    then have "v = v' \<and> n = n'" by simp
    then show "s = t" by (simp add: s' t' v v')
  qed
  have c: "card (set rex_first) = 300"
    using rex_first_props(1,2) by (simp add: distinct_card)
  have d: "card (set ''123'') = 3" by simp
  have "card (?f ` ?D) = card ?D" using inj by (rule card_image)
  also have "\<dots> = 900" by (simp only: card_cartesian_product c d)
  finally have "card digit_family = 900" by (simp only: digit_family_def)
  moreover have "finite digit_family" unfolding digit_family_def by (intro finite_imageI) simp
  ultimately show ?thesis by simp
qed

lemma families_disjoint: "rex_family \<inter> digit_family = {}"
proof (rule ccontr)
  assume "rex_family \<inter> digit_family \<noteq> {}"
  then obtain x where r: "x \<in> rex_family" and d: "x \<in> digit_family" by blast
  from rex_family_props [OF r] obtain v' where v': "x = v' @ WATERMARK" "v' \<noteq> []"
    "last v' = CHR ''x'' \<or> last v' = CHR ''X''" by blast
  from d obtain v n where n: "n \<in> set ''123''" and x: "x = v @ n # WATERMARK"
    by (rule digit_familyE)
  from v'(1) x have "v' @ WATERMARK = (v @ [n]) @ WATERMARK" by simp
  then have "v' = v @ [n]" by (simp only: append_same_eq)
  then have "last v' = n" by simp
  with v'(3) n show False by auto
qed

lemma mentions_name_append: "mentions_name (u @ v) = (mentions_name u \<or> mentions_name v)"
  by (auto simp add: mentions_name_def)

lemma watermark_plain: "\<not> mentions_name WATERMARK"
  using marks_ok by simp

lemma families_plain:
  assumes "x \<in> rex_family \<union> digit_family"
  shows "\<not> mentions_name x"
proof -
  from assms show ?thesis
  proof
    assume "x \<in> rex_family"
    from rex_family_props [OF this] obtain v where "x = v @ WATERMARK" "\<not> mentions_name v" by blast
    then show ?thesis by (simp add: mentions_name_append watermark_plain)
  next
    assume "x \<in> digit_family"
    then obtain v n where n: "n \<in> set ''123''" and x: "x = v @ n # WATERMARK"
      and v: "\<not> mentions_name v" by (rule digit_familyE)
    have "x = v @ [n] @ WATERMARK" using x by simp
    moreover have "\<not> mentions_name [n]" using n by (auto simp add: mentions_name_def)
    ultimately show ?thesis using v by (simp only: mentions_name_append watermark_plain simp_thms)
  qed
qed

lemma plenty_without_name:
  assumes "take 300 (permute k john_c4) = rex_first"
  shows "1242 \<le> length (filter (\<lambda>w. \<not> mentions_name w) (john_c5 k ns))"
proof -
  let ?J = "filter (\<lambda>w. \<not> mentions_name w) (john_c5 k ns)"
  have "set john_c4 \<subseteq> set (john_c5 k ns)" unfolding john_c5_def by (rule stage_mono)
  with rex_family_in_c4 have r: "rex_family \<subseteq> set (john_c5 k ns)" by (rule subset_trans)
  from digit_family_in_c5 [OF assms] have d: "digit_family \<subseteq> set (john_c5 k ns)" .
  have sub: "rex_family \<union> digit_family \<subseteq> set ?J"
  proof
    fix x assume x: "x \<in> rex_family \<union> digit_family"
    with r d have "x \<in> set (john_c5 k ns)" by blast
    with families_plain [OF x] show "x \<in> set ?J" by simp
  qed
  have "card (rex_family \<union> digit_family) = card rex_family + card digit_family"
    using rex_family_card digit_family_card families_disjoint by (intro card_Un_disjoint) simp_all
  then have "card (rex_family \<union> digit_family) = 1242"
    using rex_family_card digit_family_card by simp
  moreover have "card (rex_family \<union> digit_family) \<le> card (set ?J)"
    using sub by (intro card_mono) simp_all
  moreover have "card (set ?J) \<le> length ?J" by (rule card_length)
  ultimately show ?thesis by linarith
qed

lemma permute_Nil: "permute ks [] = []"
  by (cases ks) simp_all

lemma permute_single: "permute ks [x] = [x]"
  by (cases ks) (simp_all add: Let_def remove_nth_def permute_Nil)

lemma john_numbers_exact: "collect_numbers env john_smith = Inr [''1990'']"
  by (simp add: collect_numbers_def get_years_def john_dob john_extra john_lucky Let_def
      set_add_def permute_single)

lemma john_tokens_plain:
  "tokens_order env = [] \<Longrightarrow>
   extract_tokens env john_smith = Inr [''15/06/1990'', ''johnsmith'', ''rex'']"
  using john_loop by (simp add: extract_tokens_def)

lemma john_stages_c5:
  assumes "case_order env = []" "leet_order env = []" "specials_order env = []"
  shows "stages env john_smith 6 16 True True [''15/06/1990'', ''johnsmith'', ''rex''] =
         Inr (john_c5 (numeric_order env) [''1990''])"
  by (simp add: stages_def john_numbers_exact john_name seed_john john_seed_lucky transforms_def
      Let_def assms case_john john_c5_def john_c4_def john_c3_def john_c2_def)

lemma john_smith_name_free_run:
  "\<exists>env res. generate_realistic env john_smith 1000 6 16 True True = Inr res \<and>
     length res = 1000 \<and> (\<forall>w \<in> set res. \<not> mentions_name w)"
proof -
  from numeric_key obtain k where k: "take 300 (permute k john_c4) = rex_first" ..
  define c5 where "c5 = john_c5 k [''1990'']"
  define J where "J = filter (\<lambda>w. \<not> mentions_name w) c5"
  from plenty_without_name [OF k, of "[''1990'']"] have lJ: "1242 \<le> length J"
    by (simp only: J_def c5_def)
  have "length J \<le> length c5" unfolding J_def by (rule length_filter_le)
  with lJ have lc: "1242 \<le> length c5" by linarith
  from permute_front [of c5 "\<lambda>w. \<not> mentions_name w"]
  obtain kf where kf: "permute kf c5 = J @ filter (\<lambda>w. \<not> \<not> mentions_name w) c5"
    unfolding J_def ..
  define env where "env = plain_orders\<lparr>numeric_order := k, final_order := kf\<rparr>"
  have f: "tokens_order env = []" "case_order env = []" "leet_order env = []"
    "specials_order env = []" "numeric_order env = k" "final_order env = kf"
    "final_shuffle env = []"
    by (simp_all add: env_def plain_orders_def)
  let ?tokens = "[''15/06/1990'', ''johnsmith'', ''rex'']"
  have t: "extract_tokens env john_smith = Inr ?tokens" using f(1) by (rule john_tokens_plain)
  have st: "stages env john_smith 6 16 True True ?tokens = Inr c5"
    using john_stages_c5 [OF f(2,3,4)] by (simp only: f(5) c5_def)
  have fb: "fallback env 1000 6 16 ?tokens c5 = (c5, [])"
    using lc by (simp add: fallback_def Let_def)
  have acc: "accumulate env john_smith 1000 6 16 True True ?tokens = Inr c5"
    by (simp add: accumulate_def st fb)
  have "select_output env 1000 c5 = take 1000 (permute kf c5)"
    by (simp add: select_output_def f slice_to_def MAX_OUTPUT_def)
  also have "\<dots> = take 1000 J" using lJ by (simp add: kf)
  finally have sel: "select_output env 1000 c5 = take 1000 J" .
  have gen: "generate_realistic env john_smith 1000 6 16 True True = Inr (take 1000 J)"
    by (simp add: generate_realistic_def t acc sel)
  have l: "length (take 1000 J) = 1000" using lJ by simp
  have p: "\<forall>w \<in> set (take 1000 J). \<not> mentions_name w"
  proof
    fix w assume "w \<in> set (take 1000 J)"
    then have "w \<in> set J" by (rule in_set_takeD)
    then show "\<not> mentions_name w" by (simp add: J_def)
  qed
  from gen l p show ?thesis by blast
qed

lemma john_dates: "date_variants \<lparr>dd = ''15'', mm = ''06'', yyyy = ''1990'', full = ''15061990''\<rparr> = Inr john_date_variants"
  by code_simp

lemma name_letter_case:
  "to_lower (CHR ''j'') = CHR ''j'' \<and> to_lower (CHR ''J'') = CHR ''j'' \<and>
   to_upper (CHR ''j'') = CHR ''J'' \<and> to_upper (CHR ''J'') = CHR ''J'' \<and>
   map_of (maketrans leet_map) (KeyOrd (ord (CHR ''j''))) = None \<and>
   map_of (maketrans leet_map) (KeyOrd (ord (CHR ''J''))) = None"
  by code_simp

lemma mentions_name_nth:
  "mentions_name b \<longleftrightarrow> (\<exists>i<length b. b ! i = CHR ''j'' \<or> b ! i = CHR ''J'')"
  unfolding mentions_name_def in_set_conv_nth by blast

lemma mentions_name_pointwise:
  assumes "length v = length b"
    and "\<And>i. i < length b \<Longrightarrow> v ! i = to_lower (b ! i) \<or> v ! i = to_upper (b ! i)"
    and "mentions_name b"
  shows "mentions_name v"
proof -
  from assms(3) obtain i where i: "i < length b" and c: "b ! i = CHR ''j'' \<or> b ! i = CHR ''J''"
    unfolding mentions_name_nth by blast
  from assms(2) [OF i] c name_letter_case have "v ! i = CHR ''j'' \<or> v ! i = CHR ''J''"
    by auto
  with i assms(1) show ?thesis unfolding mentions_name_nth by auto
qed

lemma mentions_name_case:
  assumes "mentions_name b" "v \<in> set (case_variants b True)"
  shows "mentions_name v"
proof -
  let ?alt = "map (\<lambda>(i, c). if i mod 2 = 0 then to_upper c else to_lower c) (enumerate 0 b)"
  from assms(2) have "v = lower b \<or> v = upper b \<or> v = capitalize b \<or> v = ?alt"
    by (auto simp add: case_variants_def split: if_splits)
  moreover have "mentions_name (lower b)"
    by (rule mentions_name_pointwise [OF _ _ assms(1)]) (simp_all add: lower_def)
  moreover have "mentions_name (upper b)"
    by (rule mentions_name_pointwise [OF _ _ assms(1)]) (simp_all add: upper_def)
  moreover have "mentions_name (capitalize b)"
  proof (rule mentions_name_pointwise [OF _ _ assms(1)])
    show "length (capitalize b) = length b" by (cases b) simp_all
    show "capitalize b ! i = to_lower (b ! i) \<or> capitalize b ! i = to_upper (b ! i)"
      if "i < length b" for i
      using that by (cases b; cases i) simp_all
  qed
  moreover have "mentions_name ?alt"
    by (rule mentions_name_pointwise [OF _ _ assms(1)]) (simp_all add: nth_enumerate_eq)
  ultimately show ?thesis by blast
qed

lemma mentions_name_translate:
  assumes "mentions_name b"
  shows "mentions_name (translate (maketrans leet_map) b)"
proof -
  from assms obtain c where c: "c \<in> set b" "c = CHR ''j'' \<or> c = CHR ''J''"
    unfolding mentions_name_def by blast
  then have "map_of (maketrans leet_map) (KeyOrd (ord c)) = None" using name_letter_case by auto
  with c(1) have "c \<in> set (translate (maketrans leet_map) b)"
    unfolding translate_def by force
  with c(2) show ?thesis unfolding mentions_name_def by auto
qed

lemma mentions_name_leet:
  assumes "mentions_name b" "v \<in> set (leet_variants b)"
  shows "mentions_name v"
proof -
  have "leet_variants b = translate (maketrans leet_map) b # tl (leet_variants b)"
    by (simp add: leet_variants_def Let_def)
  with assms(2) have "v = translate (maketrans leet_map) b \<or> v \<in> set (tl (leet_variants b))"
    by (metis set_ConsD)
  then show ?thesis
  proof
    assume "v = translate (maketrans leet_map) b"
    then show ?thesis using mentions_name_translate [OF assms(1)] by simp
  next
    assume "v \<in> set (tl (leet_variants b))"
    then have "v = b" by (rule leet_single_unchanged)
    then show ?thesis using assms(1) by simp
  qed
qed

lemma derived_mentions_name: "name_date_derived b \<Longrightarrow> mentions_name b"
proof (induction rule: name_date_derived.induct)
  case (name_first d)
  then show ?case by (simp add: mentions_name_def)
next
  case (date_first d)
  then show ?case by (simp add: mentions_name_def)
next
  case (cased b v)
  then show ?case using mentions_name_case by blast
next
  case (leeted b v)
  then show ?case using mentions_name_leet by blast
next
  case (appended b v)
  then show ?case by (auto simp add: append_specials_def mentions_name_def)
next
  case (inserted b v)
  have "set (take i b) \<union> set (drop i b) = set b" for i
    by (metis append_take_drop_id set_append)
  with inserted show ?case
    by (auto simp add: insert_special_def mentions_name_def split: if_splits)
next
  case (suffixed b v numbers)
  then show ?case by (auto simp add: numeric_suffixes_def mentions_name_def)
qed

text \<open>
  C6, as the code has it. For the record with \<open>dob = 15/06/1990\<close>,
  \<open>full_name = John Smith\<close>, \<open>extra_words = [Rex]\<close> and the default parameters, the
  candidate set the output is selected from contains \<open>johnsmith1990--EDU\<close>, whatever
  the iteration orders and shuffles are; the returned sequence is the selection
  \<open>final[:1000]\<close> from the shuffled set.
\<close>

theorem john_smith_candidates:
  "\<exists>tokens c.
     extract_tokens env john_smith = Inr tokens \<and>
     accumulate env john_smith 1000 MIN_LEN_DEFAULT MAX_LEN_DEFAULT True True tokens = Inr c \<and>
     generate_realistic env john_smith 1000 MIN_LEN_DEFAULT MAX_LEN_DEFAULT True True =
       Inr (select_output env 1000 c) \<and>
     ''johnsmith1990--EDU'' \<in> set c"
proof -
  from john_tokens_any obtain tokens where t: "extract_tokens env john_smith = Inr tokens"
    and ne: "tokens \<noteq> []" by blast
  from john_numbers_any obtain ns where ns: "collect_numbers env john_smith = Inr ns" by blast
  let ?c = "transforms env 6 16 True True ns (pairwise 6 16 tokens name_date_seeds)"
  have st: "stages env john_smith 6 16 True True tokens = Inr ?c"
    by (simp add: stages_def ns john_name seed_john john_seed_lucky)
  let ?r = "fst (fallback env 1000 6 16 tokens ?c)"
  have acc: "accumulate env john_smith 1000 6 16 True True tokens = Inr ?r"
    by (simp add: accumulate_def st)
  have "''johnsmith1990--EDU'' \<in> set name_date_seeds" by (simp add: name_date_seeds_def)
  then have "''johnsmith1990--EDU'' \<in> set (pairwise 6 16 tokens name_date_seeds)"
    using pairwise_mono by blast
  then have "''johnsmith1990--EDU'' \<in> set ?c" using transforms_mono by blast
  then have m: "''johnsmith1990--EDU'' \<in> set ?r" using fallback_mono by blast
  have "generate_realistic env john_smith 1000 6 16 True True = Inr (select_output env 1000 ?r)"
    using ne by (simp add: generate_realistic_def t acc)
  with t acc m show ?thesis
    unfolding MIN_LEN_DEFAULT_def MAX_LEN_DEFAULT_def by blast
qed

text \<open>
  C6, as stated, fails: for some iteration orders none of the thousand strings
  returned holds the letter \<open>j\<close> in either case, while every string derived from
  \<open>johnsmith\<close> and a date variant holds it. So the result has no candidate formed
  from \<open>johnsmith\<close>, with a date variant or without.
\<close>

theorem john_smith_result_without_name:
  "\<not> (\<forall>env. \<exists>res.
         generate_realistic env john_smith 1000 MIN_LEN_DEFAULT MAX_LEN_DEFAULT True True = Inr res \<and>
         (\<exists>w \<in> set res. mentions_name w))"
proof
  assume a: "\<forall>env. \<exists>res.
         generate_realistic env john_smith 1000 MIN_LEN_DEFAULT MAX_LEN_DEFAULT True True = Inr res \<and>
         (\<exists>w \<in> set res. mentions_name w)"
  from john_smith_name_free_run obtain env res
    where g: "generate_realistic env john_smith 1000 6 16 True True = Inr res"
      and p: "\<forall>w \<in> set res. \<not> mentions_name w" by blast
  from a obtain res' where g': "generate_realistic env john_smith 1000 6 16 True True = Inr res'"
    and m: "\<exists>w \<in> set res'. mentions_name w"
    unfolding MIN_LEN_DEFAULT_def MAX_LEN_DEFAULT_def by blast
  from g g' have "res' = res" by simp
  with m p show False by blast
qed

end
